theory Spec2Isabelle
  imports Complex_Main "HOL-Library.Word"
begin

unbundle bit_operations_syntax

section \<open>The C library functions the tokenizer calls\<close>

text \<open>
  Source bytes are \<open>char\<close>s and a buffer is a \<open>string\<close>. The character classes are those
  of \<open>ctype.h\<close> in the "C" locale, which is the locale \<open>main\<close> runs in (it never calls
  \<open>setlocale\<close>); bytes above 127 belong to no class and \<open>tolower\<close> leaves them alone.
\<close>

definition byte :: "char \<Rightarrow> nat" where
  "byte c = of_char c"

definition isspace :: "char \<Rightarrow> bool" where
  "isspace c = (byte c = 32 \<or> (9 \<le> byte c \<and> byte c \<le> 13))"

definition isupper :: "char \<Rightarrow> bool" where
  "isupper c = (65 \<le> byte c \<and> byte c \<le> 90)"

definition islower :: "char \<Rightarrow> bool" where
  "islower c = (97 \<le> byte c \<and> byte c \<le> 122)"

definition isdigit :: "char \<Rightarrow> bool" where
  "isdigit c = (48 \<le> byte c \<and> byte c \<le> 57)"

definition ispunct :: "char \<Rightarrow> bool" where
  "ispunct c = ((33 \<le> byte c \<and> byte c \<le> 47) \<or> (58 \<le> byte c \<and> byte c \<le> 64) \<or>
                (91 \<le> byte c \<and> byte c \<le> 96) \<or> (123 \<le> byte c \<and> byte c \<le> 126))"

definition tolower :: "char \<Rightarrow> char" where
  "tolower c = (if isupper c then char_of (byte c + 32) else c)"

text \<open>
  A C string ends at its first NUL byte. \<open>strcmp\<close> compares two C strings as sequences of
  unsigned bytes; only the sign of its result is specified, so the model returns \<open>-1\<close>,
  \<open>0\<close> or \<open>1\<close>.
\<close>

definition cstr :: "string \<Rightarrow> string" where
  "cstr s = takeWhile (\<lambda>c. byte c \<noteq> 0) s"

fun strcmp_bytes :: "string \<Rightarrow> string \<Rightarrow> int" where
  "strcmp_bytes [] [] = 0"
| "strcmp_bytes [] (b # bs) = -1"
| "strcmp_bytes (a # as) [] = 1"
| "strcmp_bytes (a # as) (b # bs) =
     (if byte a < byte b then -1 else if byte b < byte a then 1 else strcmp_bytes as bs)"

definition strcmp :: "string \<Rightarrow> string \<Rightarrow> int" where
  "strcmp a b = strcmp_bytes (cstr a) (cstr b)"

text \<open>\<open>strstr(haystack, needle) != NULL\<close>: the needle occurs in the haystack.\<close>

fun strstr :: "string \<Rightarrow> string \<Rightarrow> bool" where
  "strstr [] needle = (needle = [])"
| "strstr (h # hs) needle = (take (length needle) (h # hs) = needle \<or> strstr hs needle)"

text \<open>
  \<open>bsearch\<close> is the binary search of the C library as glibc and musl implement it: the
  probe is the middle element of the remaining range \<open>[l, u)\<close>, the comparison function
  gets the key first and the element second. The result is the index of the element
  found (the C function returns a pointer to it) or \<open>None\<close> for \<open>NULL\<close>.
\<close>

function bsearch_loop :: "(string \<Rightarrow> string \<Rightarrow> int) \<Rightarrow> string \<Rightarrow> string list \<Rightarrow> nat \<Rightarrow> nat \<Rightarrow> nat option" where
  "bsearch_loop compar key base l u =
     (if l < u then
        (let idx = (l + u) div 2; comparison = compar key (base ! idx) in
         if comparison < 0 then bsearch_loop compar key base l idx
         else if comparison > 0 then bsearch_loop compar key base (idx + 1) u
         else Some idx)
      else None)"
  by pat_completeness auto
termination
  by (relation "measure (\<lambda>(compar, key, base, l, u). u - l)") auto

definition bsearch :: "string \<Rightarrow> string list \<Rightarrow> (string \<Rightarrow> string \<Rightarrow> int) \<Rightarrow> nat option" where
  "bsearch key base compar = bsearch_loop compar key base 0 (length base)"

section \<open>Bigram entropy model (\<open>entropy.h\<close>)\<close>

record EntropyModel =
  counts :: "char \<Rightarrow> char \<Rightarrow> 32 word"
  totals :: "char \<Rightarrow> 32 word"

text \<open>
  \<open>model_train_sequence\<close> gets the \<open>len\<close> bytes of \<open>text\<close> as a list: every adjacent pair
  increments its count and the total of its first byte (both \<open>uint32_t\<close>, so they wrap).
  A text of fewer than two bytes changes nothing.
\<close>

fun model_train_sequence :: "EntropyModel \<Rightarrow> string \<Rightarrow> EntropyModel" where
  "model_train_sequence m (cur # next # rest) =
     model_train_sequence
       (m\<lparr>counts := (counts m)(cur := (counts m cur)(next := counts m cur next + 1)),
          totals := (totals m)(cur := totals m cur + 1)\<rparr>)
       (next # rest)"
| "model_train_sequence m [c] = m"
| "model_train_sequence m [] = m"

text \<open>
  \<open>calculate_surprise\<close> computes in \<open>float\<close>; the model computes the same expression in
  the reals.
\<close>

definition calculate_surprise :: "EntropyModel \<Rightarrow> char \<Rightarrow> char \<Rightarrow> real" where
  "calculate_surprise m cur next =
     (if unat (totals m cur) < 5 then 0
      else (let count = real (unat (counts m cur next));
                total = real (unat (totals m cur));
                p = (count + 1 / 10) / (total + 1)
            in - log 2 p))"

definition zero_model :: EntropyModel where
  "zero_model = \<lparr>counts = (\<lambda>a b. 0), totals = (\<lambda>a. 0)\<rparr>"

section \<open>Hash, casing and the locked vocabulary\<close>

definition murmur_hash :: "string \<Rightarrow> 32 word" where
  "murmur_hash key =
     foldl (\<lambda>h c. (h XOR of_nat (byte (tolower c))) * 0x01000193) 0x811c9dc5 key"

definition get_casing :: "string \<Rightarrow> nat" where
  "get_casing s =
     (let caps = length (filter isupper s) in
      if caps = 0 then 0
      else if caps = length s then 2
      else if caps = 1 \<and> isupper (hd s) then 1
      else 3)"

definition LOCKED_VOCAB :: "string list" where
  "LOCKED_VOCAB =
    [''auto'', ''break'', ''case'', ''char'', ''const'', ''continue'', ''default'', ''do'',
     ''double'', ''else'', ''enum'', ''extern'', ''float'', ''for'', ''goto'', ''if'', ''int'',
     ''long'', ''register'', ''return'', ''short'', ''signed'', ''sizeof'', ''static'', ''struct'',
     ''switch'', ''typedef'', ''union'', ''unsigned'', ''void'', ''volatile'', ''while'',
     ''define'', ''include'', ''ifdef'', ''ifndef'', ''endif'',
     ''printf'', ''malloc'', ''free'', ''size_t'', ''uint32_t'', ''uint8_t'', ''uint16_t'',
     ''NULL'', ''true'', ''false'', ''bool'', ''file'', ''path'', ''buffer'', ''length'',
     ''count'', ''offset'', ''data'', ''node'', ''tree'', ''parser'', ''cursor'', ''root'']"

definition vocab_cmp :: "string \<Rightarrow> string \<Rightarrow> int" where
  "vocab_cmp a b = strcmp a b"

text \<open>
  \<open>is_word_locked\<close> gets the \<open>len\<close> bytes at \<open>str\<close> as a list. The lowered copy in
  \<open>buffer\<close> is NUL-terminated, and \<open>strcmp\<close> reads it as a C string.
\<close>

definition is_word_locked :: "string \<Rightarrow> bool" where
  "is_word_locked str =
     (if length str \<ge> 64 then False
      else bsearch (map tolower str) LOCKED_VOCAB vocab_cmp \<noteq> None)"

section \<open>Persistent registry\<close>

definition SEEN_TABLE_SIZE :: nat where
  "SEEN_TABLE_SIZE = 4194304"

text \<open>
  \<open>seen_hashes\<close> is the table of \<open>SEEN_TABLE_SIZE\<close> slots, read at indices below that
  size only. \<open>vocab_file\<close> is the append-only log, one entry per record written
  (id, length byte, bytes), or \<open>None\<close> for the \<open>NULL\<close> handle.
\<close>

record registry =
  seen_hashes :: "nat \<Rightarrow> 32 word"
  vocab_file :: "(32 word \<times> nat \<times> string) list option"

definition init_registry :: registry where
  "init_registry = \<lparr>seen_hashes = (\<lambda>i. 0), vocab_file = Some []\<rparr>"

text \<open>A table without an empty slot: every slot holds the id 5.\<close>

definition table_of_fives :: "nat \<Rightarrow> 32 word" where
  "table_of_fives i = 5"

text \<open>
  The two probe loops have no bound of their own, so they are partial functions: \<open>None\<close>
  is a loop that never ends. \<open>probe_free\<close> is
  \<open>while (seen_hashes[idx] != 0) idx = (idx + 1) % SEEN_TABLE_SIZE;\<close> and returns the
  index it stops at; \<open>has_seen_loop\<close> is the loop of \<open>has_seen_id\<close>. The id of the
  source is \<open>tid\<close> here (\<open>id\<close> is the identity function of HOL).
\<close>

partial_function (option) probe_free :: "(nat \<Rightarrow> 32 word) \<Rightarrow> nat \<Rightarrow> nat option" where
  "probe_free tab idx =
     (if tab idx \<noteq> 0 then probe_free tab ((idx + 1) mod SEEN_TABLE_SIZE) else Some idx)"

partial_function (option) has_seen_loop :: "(nat \<Rightarrow> 32 word) \<Rightarrow> 32 word \<Rightarrow> nat \<Rightarrow> bool option" where
  "has_seen_loop tab tid idx =
     (if tab idx \<noteq> 0 then
        (if tab idx = tid then Some True
         else has_seen_loop tab tid ((idx + 1) mod SEEN_TABLE_SIZE))
      else Some False)"

definition has_seen_id :: "(nat \<Rightarrow> 32 word) \<Rightarrow> 32 word \<Rightarrow> bool option" where
  "has_seen_id tab tid = has_seen_loop tab tid (unat tid mod SEEN_TABLE_SIZE)"

definition register_token :: "registry \<Rightarrow> 32 word \<Rightarrow> string \<Rightarrow> nat \<Rightarrow> registry option" where
  "register_token reg tid text len =
     (case has_seen_id (seen_hashes reg) tid of
        None \<Rightarrow> None
      | Some True \<Rightarrow> Some reg
      | Some False \<Rightarrow>
          (case probe_free (seen_hashes reg) (unat tid mod SEEN_TABLE_SIZE) of
             None \<Rightarrow> None
           | Some idx \<Rightarrow>
               (let l = (if len > 255 then 255 else len) in
                Some (reg\<lparr>seen_hashes := (seen_hashes reg)(idx := tid),
                          vocab_file := (case vocab_file reg of
                                           None \<Rightarrow> None
                                         | Some recs \<Rightarrow> Some (recs @ [(tid, l, take l text)]))\<rparr>))))"

section \<open>Tokens and the arena\<close>

text \<open>
  The fields of \<open>NSET_Token\<close>, the bit-fields of \<open>meta\<close> included. Numbers are naturals,
  and every store truncates to the width of its field: 32 bits for \<open>offset\<close>, 16 for
  \<open>length\<close>, 3 for \<open>depth\<close>.
\<close>

record NSET_Token =
  root_id :: "32 word"
  offset :: nat
  length_tok :: nat
  type_tok :: nat
  casing :: nat
  pre_space :: bool
  pre_break :: bool
  has_joiner :: bool
  depth :: nat
  has_semi :: bool
  has_comma :: bool
  has_paren :: bool
  has_star :: bool
  has_close :: bool

definition zero_token :: NSET_Token where
  "zero_token = \<lparr>root_id = 0, offset = 0, length_tok = 0, type_tok = 0, casing = 0,
     pre_space = False, pre_break = False, has_joiner = False, depth = 0,
     has_semi = False, has_comma = False, has_paren = False, has_star = False,
     has_close = False\<rparr>"

text \<open>\<open>count\<close> is the length of \<open>tokens\<close>.\<close>

record Arena =
  tokens :: "NSET_Token list"
  capacity :: nat

text \<open>
  The process state: the arena of the file being tokenized and the two globals,
  \<open>global_model\<close> and the registry (\<open>seen_hashes\<close> with \<open>vocab_file\<close>).
\<close>

record state =
  arena :: Arena
  global_model :: EntropyModel
  reg :: registry

text \<open>The bytes \<open>code[off .. off + len)\<close>.\<close>

definition text_at :: "string \<Rightarrow> nat \<Rightarrow> nat \<Rightarrow> string" where
  "text_at code off len = take len (drop off code)"

text \<open>
  The buffer \<open>code\<close> and its size \<open>total_size\<close> are one list here, so \<open>total_size\<close> is
  \<open>length code\<close>. \<open>skip_space\<close> is the loop over white space behind the token.
\<close>

function skip_space :: "string \<Rightarrow> nat \<Rightarrow> nat" where
  "skip_space code next_pos =
     (if next_pos < length code \<and> isspace (code ! next_pos)
      then skip_space code (next_pos + 1) else next_pos)"
  by pat_completeness auto
termination
  by (relation "measure (\<lambda>(code, next_pos). length code - next_pos)") auto

definition eat_symbol :: "NSET_Token \<Rightarrow> char \<Rightarrow> NSET_Token" where
  "eat_symbol t next_char =
     (if next_char = CHR '';'' then t\<lparr>has_semi := True\<rparr>
      else if next_char = CHR '','' then t\<lparr>has_comma := True\<rparr>
      else if next_char = CHR ''('' then t\<lparr>has_paren := True\<rparr>
      else if next_char = CHR '')'' then t\<lparr>has_close := True\<rparr>
      else if next_char = CHR ''*'' then t\<lparr>has_star := True\<rparr>
      else t)"

definition arena_push :: "state \<Rightarrow> NSET_Token \<Rightarrow> string \<Rightarrow> state option" where
  "arena_push st t code =
     (if length (tokens (arena st)) \<ge> capacity (arena st) then Some st
      else
        (let next_pos = skip_space code ((offset t + length_tok t) mod 2 ^ 32);
             t' = (if next_pos < length code then eat_symbol t (code ! next_pos) else t)
         in case register_token (reg st) (root_id t') (drop (offset t') code) (length_tok t') of
              None \<Rightarrow> None
            | Some reg' \<Rightarrow>
                Some (st\<lparr>arena := (arena st)\<lparr>tokens := tokens (arena st) @ [t']\<rparr>,
                         reg := reg'\<rparr>)))"

section \<open>Identifier processor\<close>

text \<open>
  \<open>arena->tokens[arena->count - 1].meta.has_joiner = 1\<close>. With \<open>count = 0\<close> the C
  statement writes in front of the array; \<open>main\<close> never gets there (its capacity is the
  file size, which is positive when there is a leaf), and the model leaves the arena
  as it is.
\<close>

definition set_joiner :: "Arena \<Rightarrow> Arena" where
  "set_joiner a =
     (if tokens a = [] then a
      else a\<lparr>tokens := (tokens a)[length (tokens a) - 1 :=
                           (tokens a ! (length (tokens a) - 1))\<lparr>has_joiner := True\<rparr>]\<rparr>)"

text \<open>
  The token the processor builds at each of its three emission sites, for the \<open>n\<close> bytes
  at \<open>src + offset + start\<close>.
\<close>

definition ident_token :: "string \<Rightarrow> nat \<Rightarrow> nat \<Rightarrow> nat \<Rightarrow> nat \<Rightarrow> bool \<Rightarrow> nat \<Rightarrow> NSET_Token" where
  "ident_token src off start n dep pre_sp tokens_emitted =
     zero_token\<lparr>root_id := murmur_hash (text_at src (off + start) n),
                offset := (off + start) mod 2 ^ 32,
                length_tok := n mod 2 ^ 16,
                casing := get_casing (text_at src (off + start) n),
                depth := dep mod 8,
                pre_space := (if tokens_emitted = 0 then pre_sp else False)\<rparr>"

text \<open>
  The value of the flag \<open>split\<close> at index \<open>i\<close> of the splitter loop, for the current
  fragment start \<open>start\<close> and the model \<open>m\<close>: camel case first, then the entropy signal
  behind its guard.
\<close>

definition soft_split :: "EntropyModel \<Rightarrow> string \<Rightarrow> nat \<Rightarrow> nat \<Rightarrow> nat \<Rightarrow> nat \<Rightarrow> bool" where
  "soft_split m src off len start i =
     (let cur = src ! (off + i); next = src ! (off + i + 1) in
      if islower cur \<and> isupper next then True
      else if calculate_surprise m cur next > 5 then
        (let left_len = (i + 1) - start; right_len = len - (i + 1) in
         if is_word_locked (text_at src (off + start) left_len) then True
         else if left_len \<ge> 4 \<and> right_len \<ge> 3 then True
         else False)
      else False)"

text \<open>
  One iteration of the splitter loop at index \<open>i\<close>, on the loop variables
  \<open>(start, tokens_emitted)\<close> and the process state.
\<close>

definition ident_step ::
  "string \<Rightarrow> nat \<Rightarrow> nat \<Rightarrow> nat \<Rightarrow> bool \<Rightarrow> nat \<Rightarrow> nat \<times> nat \<times> state \<Rightarrow> (nat \<times> nat \<times> state) option" where
  "ident_step src off len dep pre_sp i s =
     (case s of (start, tokens_emitted, st) \<Rightarrow>
      (let cur = src ! (off + i) in
       if cur = CHR ''_'' then
         (case (if i > start
                then map_option (\<lambda>st'. (tokens_emitted + 1, st'))
                       (arena_push st (ident_token src off start (i - start) dep pre_sp tokens_emitted) src)
                else Some (tokens_emitted, st)) of
            None \<Rightarrow> None
          | Some (emitted', st') \<Rightarrow>
              Some (i + 1, emitted',
                    if emitted' > 0 then st'\<lparr>arena := set_joiner (arena st')\<rparr> else st'))
       else if i + 1 < len then
         (if soft_split (global_model st) src off len start i then
            map_option (\<lambda>st'. (i + 1, tokens_emitted + 1, st'))
              (arena_push st (ident_token src off start ((i + 1) - start) dep pre_sp tokens_emitted) src)
          else Some s)
       else Some s))"

function ident_loop ::
  "string \<Rightarrow> nat \<Rightarrow> nat \<Rightarrow> nat \<Rightarrow> bool \<Rightarrow> nat \<Rightarrow> nat \<times> nat \<times> state \<Rightarrow> (nat \<times> nat \<times> state) option" where
  "ident_loop src off len dep pre_sp i s =
     (if i < len then
        (case ident_step src off len dep pre_sp i s of
           None \<Rightarrow> None
         | Some s' \<Rightarrow> ident_loop src off len dep pre_sp (i + 1) s')
      else Some s)"
  by pat_completeness auto
termination
  by (relation "measure (\<lambda>(src, off, len, dep, pre_sp, i, s). len - i)") auto

definition process_identifier :: "state \<Rightarrow> string \<Rightarrow> nat \<Rightarrow> nat \<Rightarrow> nat \<Rightarrow> bool \<Rightarrow> state option" where
  "process_identifier st src off len dep pre_sp =
     (if is_word_locked (text_at src off len) then
        map_option (\<lambda>st'. st'\<lparr>global_model := model_train_sequence (global_model st') (text_at src off len)\<rparr>)
          (arena_push st
             (zero_token\<lparr>root_id := murmur_hash (text_at src off len),
                         offset := off mod 2 ^ 32, length_tok := len mod 2 ^ 16,
                         depth := dep mod 8, pre_space := pre_sp\<rparr>) src)
      else
        (case ident_loop src off len dep pre_sp 0
                (0, 0, st\<lparr>global_model := model_train_sequence (global_model st) (text_at src off len)\<rparr>) of
           None \<Rightarrow> None
         | Some (start, tokens_emitted, st') \<Rightarrow>
             if start < len
             then arena_push st' (ident_token src off start (len - start) dep pre_sp tokens_emitted) src
             else Some st'))"

section \<open>Traversal driver\<close>

text \<open>
  The blob splitter of \<open>main\<close>: one iteration of its loop on \<open>(sub_start, state)\<close>, the
  loop, and the fragment left behind the last separator. \<open>dep\<close> is the driver's
  \<open>depth\<close> counter.
\<close>

definition blob_step :: "string \<Rightarrow> nat \<Rightarrow> nat \<Rightarrow> nat \<Rightarrow> nat \<times> state \<Rightarrow> (nat \<times> state) option" where
  "blob_step code start dep i s =
     (case s of (sub_start, st) \<Rightarrow>
      (let c = code ! (start + i) in
       if isspace c \<or> ispunct c then
         (if i > sub_start then
            (let sub_len = i - sub_start in
             map_option (\<lambda>st'. (i + 1, st'))
               (arena_push st
                  (zero_token\<lparr>root_id := murmur_hash (text_at code (start + sub_start) sub_len),
                              offset := (start + sub_start) mod 2 ^ 32,
                              length_tok := sub_len mod 2 ^ 16,
                              depth := (dep mod 7) mod 8,
                              type_tok := 1\<rparr>) code))
          else Some (i + 1, st))
       else Some s))"

function blob_loop :: "string \<Rightarrow> nat \<Rightarrow> nat \<Rightarrow> nat \<Rightarrow> nat \<Rightarrow> nat \<times> state \<Rightarrow> (nat \<times> state) option" where
  "blob_loop code start len dep i s =
     (if i < len then
        (case blob_step code start dep i s of
           None \<Rightarrow> None
         | Some s' \<Rightarrow> blob_loop code start len dep (i + 1) s')
      else Some s)"
  by pat_completeness auto
termination
  by (relation "measure (\<lambda>(code, start, len, dep, i, s). len - i)") auto

definition blob_split :: "state \<Rightarrow> string \<Rightarrow> nat \<Rightarrow> nat \<Rightarrow> nat \<Rightarrow> state option" where
  "blob_split st code start len dep =
     (case blob_loop code start len dep 0 (0, st) of
        None \<Rightarrow> None
      | Some (sub_start, st') \<Rightarrow>
          if sub_start < len then
            arena_push st'
              (zero_token\<lparr>root_id := murmur_hash (text_at code (start + sub_start) (len - sub_start)),
                          offset := (start + sub_start) mod 2 ^ 32,
                          length_tok := (len - sub_start) mod 2 ^ 16,
                          type_tok := 1\<rparr>) code
          else Some st')"

text \<open>The test of the driver whether the previous token has eaten the leaf's first byte.\<close>

definition already_eaten :: "NSET_Token list \<Rightarrow> char \<Rightarrow> bool" where
  "already_eaten toks first_char =
     (toks \<noteq> [] \<and>
      (let prev = toks ! (length toks - 1) in
       (first_char = CHR '';'' \<and> has_semi prev) \<or>
       (first_char = CHR '','' \<and> has_comma prev) \<or>
       (first_char = CHR ''('' \<and> has_paren prev) \<or>
       (first_char = CHR '')'' \<and> has_close prev) \<or>
       (first_char = CHR ''*'' \<and> has_star prev)))"

text \<open>
  The length of a leaf as the driver computes it: the difference of two \<open>uint32_t\<close>
  stored in a \<open>uint16_t\<close>.
\<close>

definition leaf_len :: "nat \<Rightarrow> nat \<Rightarrow> nat" where
  "leaf_len start end = ((end + 2 ^ 32 - start) mod 2 ^ 32) mod 2 ^ 16"

datatype leaf_class = Eaten | Identifier | Blob | Default | Empty

text \<open>
  The dispatch of the driver for a leaf of type \<open>ty\<close> spanning \<open>[start, end)\<close>, as a
  value: \<open>Empty\<close> when the length is 0, \<open>Eaten\<close> when the symbol eater skips the leaf.
\<close>

definition classify :: "NSET_Token list \<Rightarrow> string \<Rightarrow> string \<Rightarrow> nat \<Rightarrow> nat \<Rightarrow> leaf_class" where
  "classify toks code ty start end =
     (let len = leaf_len start end in
      if len > 0 then
        (if already_eaten toks (code ! start) then Eaten
         else
           (let is_preproc = (take 7 ty = ''preproc'');
                is_macro_blob = (len > 32 \<and> \<not> is_word_locked (text_at code start len))
            in if strstr ty ''identifier'' then Identifier
               else if ty = ''comment'' \<or> ty = ''string_literal'' \<or> is_preproc \<or> is_macro_blob
               then Blob
               else Default))
      else Empty)"

definition process_leaf :: "state \<Rightarrow> string \<Rightarrow> nat \<Rightarrow> string \<Rightarrow> nat \<Rightarrow> nat \<Rightarrow> state option" where
  "process_leaf st code dep ty start end =
     (let len = leaf_len start end;
          pre_sp = (start > 0 \<and> isspace (code ! (start - 1)) \<and> code ! (start - 1) \<noteq> CHR 0x0A);
          pre_br = (start > 0 \<and> code ! (start - 1) = CHR 0x0A)
      in case classify (tokens (arena st)) code ty start end of
           Empty \<Rightarrow> Some st
         | Eaten \<Rightarrow> Some st
         | Identifier \<Rightarrow> process_identifier st code start len (dep mod 7) pre_sp
         | Blob \<Rightarrow> blob_split st code start len dep
         | Default \<Rightarrow>
             arena_push st
               (zero_token\<lparr>root_id := murmur_hash (text_at code start len),
                           offset := start mod 2 ^ 32, length_tok := len mod 2 ^ 16,
                           depth := (dep mod 7) mod 8,
                           pre_space := pre_sp, pre_break := pre_br,
                           type_tok := (if isdigit (code ! start) then 2 else 0)\<rparr>) code)"

text \<open>
  The syntax tree the parser returns, and the cursor walk of \<open>main\<close> over it: a node
  without children is a leaf, \<open>depth\<close> grows by one on the way to a first child and
  shrinks by one on the way back to the parent.
\<close>

datatype TSNode = Node (node_type: string) (start_byte: nat) (end_byte: nat) (children: "TSNode list")

fun walk :: "state \<Rightarrow> string \<Rightarrow> nat \<Rightarrow> TSNode \<Rightarrow> state option"
  and walk_children :: "state \<Rightarrow> string \<Rightarrow> nat \<Rightarrow> TSNode list \<Rightarrow> state option" where
  "walk st code dep (Node ty s e []) = process_leaf st code dep ty s e"
| "walk st code dep (Node ty s e (c # cs)) = walk_children st code (dep + 1) (c # cs)"
| "walk_children st code dep [] = Some st"
| "walk_children st code dep (c # cs) =
     (case walk st code dep c of
        None \<Rightarrow> None
      | Some st' \<Rightarrow> walk_children st' code dep cs)"

text \<open>
  \<open>main\<close> from the registry it has loaded: the model is trained 20 times on the locked
  vocabulary, the arena gets the file size as its capacity, and the tree is walked from
  depth 0.
\<close>

definition pre_train :: EntropyModel where
  "pre_train = foldl (\<lambda>m n. foldl model_train_sequence m LOCKED_VOCAB) zero_model [0..<20]"

definition tokenize :: "registry \<Rightarrow> string \<Rightarrow> TSNode \<Rightarrow> state option" where
  "tokenize r code root_node =
     walk \<lparr>arena = \<lparr>tokens = [], capacity = length code\<rparr>, global_model = pre_train, reg = r\<rparr>
       code 0 root_node"

section \<open>Observations on a run\<close>

text \<open>
  The tokens a call has appended to the arena it started from: those behind the tokens
  that were there before. A call that does not return has appended none.
\<close>

definition emitted :: "state \<Rightarrow> state option \<Rightarrow> NSET_Token list" where
  "emitted st r =
     (case r of None \<Rightarrow> [] | Some st' \<Rightarrow> drop (length (tokens (arena st))) (tokens (arena st')))"

text \<open>A text has a lower-case ASCII letter directly in front of an upper-case one.\<close>

fun has_camel_pair :: "string \<Rightarrow> bool" where
  "has_camel_pair (a # b # rest) = ((islower a \<and> isupper b) \<or> has_camel_pair (b # rest))"
| "has_camel_pair [a] = False"
| "has_camel_pair [] = False"

text \<open>
  The state of the process before any training, with an empty arena of the given
  capacity and an empty registry.
\<close>

definition fresh_state :: "nat \<Rightarrow> state" where
  "fresh_state cap =
     \<lparr>arena = \<lparr>tokens = [], capacity = cap\<rparr>, global_model = zero_model, reg = init_registry\<rparr>"

text \<open>A bigram model that has seen every byte a thousand times, each time followed by \<open>z\<close>.\<close>

definition z_model :: EntropyModel where
  "z_model = \<lparr>counts = (\<lambda>a b. if b = CHR ''z'' then 1000 else 0), totals = (\<lambda>a. 1000)\<rparr>"

text \<open>
  Four small runs: the identifier leaf \<open>my_var\<close> behind a newline, a comment, the
  identifier leaf \<open>myVar\<close>, and the identifier \<open>abcdefgh\<close> under \<open>z_model\<close>, where
  every bigram of it is a surprise.
\<close>

definition newline_demo :: "NSET_Token list" where
  "newline_demo =
     emitted (fresh_state 7)
       (process_leaf (fresh_state 7) (CHR 0x0A # ''my_var'') 1 ''identifier'' 1 7)"

definition comment_demo :: "NSET_Token list" where
  "comment_demo =
     emitted (fresh_state 8) (process_leaf (fresh_state 8) ''// ab cd'' 1 ''comment'' 0 8)"

definition camel_demo :: "NSET_Token list" where
  "camel_demo =
     emitted (fresh_state 5) (process_leaf (fresh_state 5) ''myVar'' 1 ''identifier'' 0 5)"

definition entropy_demo :: "NSET_Token list" where
  "entropy_demo =
     emitted ((fresh_state 8)\<lparr>global_model := z_model\<rparr>)
       (process_identifier ((fresh_state 8)\<lparr>global_model := z_model\<rparr>) ''abcdefgh'' 0 8 0 False)"

section \<open>Invariants of the splitter loops\<close>

text \<open>
  The splitter loops are followed on what a token keeps for good: its offset, its length
  and its \<open>pre_break\<close> bit. The symbol eater and the joiner mark change other bits
  only, so the list of these triples only ever grows at its end.
\<close>

definition tok_key :: "NSET_Token \<Rightarrow> nat \<times> nat \<times> bool" where
  "tok_key t = (offset t, length_tok t, pre_break t)"

definition keys :: "state \<Rightarrow> (nat \<times> nat \<times> bool) list" where
  "keys st = map tok_key (tokens (arena st))"

text \<open>
  A property of every entry from index \<open>n\<close> on, and of every two neighbours from index
  \<open>n\<close> on.
\<close>

definition all_from :: "nat \<Rightarrow> ('a \<Rightarrow> bool) \<Rightarrow> 'a list \<Rightarrow> bool" where
  "all_from n P K = (\<forall>k. n \<le> k \<and> k < length K \<longrightarrow> P (K ! k))"

definition adj_from :: "nat \<Rightarrow> ('a \<Rightarrow> 'a \<Rightarrow> bool) \<Rightarrow> 'a list \<Rightarrow> bool" where
  "adj_from n Q K = (\<forall>k. n \<le> k \<and> k + 1 < length K \<longrightarrow> Q (K ! k) (K ! (k + 1)))"

text \<open>
  A fragment of the identifier at \<open>[off, off + len)\<close> as the splitter emits it: inside
  the identifier, not empty, without an underscore and without a lower-case letter in
  front of an upper-case one.
\<close>

definition camel_at :: "string \<Rightarrow> nat \<Rightarrow> bool" where
  "camel_at src j = (islower (src ! j) \<and> isupper (src ! (j + 1)))"

definition frag_ok :: "string \<Rightarrow> nat \<Rightarrow> nat \<Rightarrow> nat \<times> nat \<times> bool \<Rightarrow> bool" where
  "frag_ok src off len k =
     (case k of (b, l, pb) \<Rightarrow>
        \<not> pb \<and> 0 < l \<and> off \<le> b \<and> b + l \<le> off + len \<and>
        (\<forall>j. b \<le> j \<and> j < b + l \<longrightarrow> src ! j \<noteq> CHR ''_'') \<and>
        (\<forall>j. b \<le> j \<and> j + 1 < b + l \<longrightarrow> \<not> camel_at src j))"

text \<open>
  What holds for a fragment whose end is the start of the next one: the cut is a
  camel-case cut, or the fragment is a locked word, or the fragment has at least four
  bytes and at least three are left behind it.
\<close>

definition split_ok :: "string \<Rightarrow> nat \<Rightarrow> nat \<Rightarrow> nat \<times> nat \<times> bool \<Rightarrow> bool" where
  "split_ok src off len k =
     (case k of (b, l, pb) \<Rightarrow>
        camel_at src (b + l - 1) \<or> is_word_locked (text_at src b l) \<or>
        (4 \<le> l \<and> 3 \<le> off + len - (b + l)))"

definition key_end :: "nat \<times> nat \<times> bool \<Rightarrow> nat" where
  "key_end k = fst k + fst (snd k)"

text \<open>
  The invariant of the splitter loop at index \<open>i\<close> with fragment start \<open>start\<close>, for
  the triples \<open>K\<close> of the arena, of which the first \<open>n\<close> were there before.
\<close>

definition ident_inv :: "string \<Rightarrow> nat \<Rightarrow> nat \<Rightarrow> nat \<Rightarrow> nat \<Rightarrow> nat \<Rightarrow> (nat \<times> nat \<times> bool) list \<Rightarrow> bool" where
  "ident_inv src off len n i start K =
     (start \<le> i \<and> n \<le> length K \<and>
      (\<forall>j. off + start \<le> j \<and> j < off + i \<longrightarrow> src ! j \<noteq> CHR ''_'') \<and>
      (\<forall>j. off + start \<le> j \<and> j < off + i \<and> j + 1 < off + len \<longrightarrow> \<not> camel_at src j) \<and>
      all_from n (frag_ok src off len) K \<and>
      adj_from n (\<lambda>a b. fst b = key_end a \<longrightarrow> split_ok src off len a) K \<and>
      (n < length K \<longrightarrow> key_end (last K) \<le> off + start \<and>
         (key_end (last K) = off + start \<longrightarrow> split_ok src off len (last K))))"

text \<open>The same for the blob splitter, whose separators are white space and punctuation.\<close>

definition is_sep :: "char \<Rightarrow> bool" where
  "is_sep c = (isspace c \<or> ispunct c)"

definition blob_frag_ok :: "string \<Rightarrow> nat \<Rightarrow> nat \<Rightarrow> nat \<times> nat \<times> bool \<Rightarrow> bool" where
  "blob_frag_ok code start len k =
     (case k of (b, l, pb) \<Rightarrow>
        \<not> pb \<and> b + l \<le> start + len \<and> (\<forall>j. b \<le> j \<and> j < b + l \<longrightarrow> \<not> is_sep (code ! j)))"

definition blob_inv :: "string \<Rightarrow> nat \<Rightarrow> nat \<Rightarrow> nat \<Rightarrow> nat \<Rightarrow> nat \<Rightarrow> (nat \<times> nat \<times> bool) list \<Rightarrow> bool" where
  "blob_inv code start len n i sub_start K =
     (sub_start \<le> i \<and> n \<le> length K \<and>
      (\<forall>j. start + sub_start \<le> j \<and> j < start + i \<longrightarrow> \<not> is_sep (code ! j)) \<and>
      all_from n (blob_frag_ok code start len) K)"

text \<open>No entry from index \<open>n\<close> on has the \<open>pre_break\<close> bit.\<close>

definition no_break :: "nat \<Rightarrow> (nat \<times> nat \<times> bool) list \<Rightarrow> bool" where
  "no_break n K = (n \<le> length K \<and> all_from n (\<lambda>k. \<not> snd (snd k)) K)"

section \<open>Rules for running the model on concrete inputs\<close>

declare bsearch_loop.simps [simp del]
declare skip_space.simps [simp del]
declare ident_loop.simps [simp del]
declare blob_loop.simps [simp del]

lemma bsearch_loop_done: "\<not> l < u \<Longrightarrow> bsearch_loop compar key base l u = None"
  by (simp add: bsearch_loop.simps)

lemma bsearch_loop_left:
  "l < u \<Longrightarrow> compar key (base ! ((l + u) div 2)) < 0 \<Longrightarrow>
   bsearch_loop compar key base l u = bsearch_loop compar key base l ((l + u) div 2)"
  by (subst bsearch_loop.simps) (simp add: Let_def)

lemma bsearch_loop_right:
  "l < u \<Longrightarrow> compar key (base ! ((l + u) div 2)) > 0 \<Longrightarrow>
   bsearch_loop compar key base l u = bsearch_loop compar key base ((l + u) div 2 + 1) u"
  by (subst bsearch_loop.simps) (simp add: Let_def)

lemma bsearch_loop_hit:
  "l < u \<Longrightarrow> compar key (base ! ((l + u) div 2)) = 0 \<Longrightarrow>
   bsearch_loop compar key base l u = Some ((l + u) div 2)"
  by (subst bsearch_loop.simps) (simp add: Let_def)

lemma skip_space_step:
  "next_pos < length code \<Longrightarrow> isspace (code ! next_pos) \<Longrightarrow>
   skip_space code next_pos = skip_space code (next_pos + 1)"
  by (subst skip_space.simps) simp

lemma skip_space_stop:
  "\<not> (next_pos < length code \<and> isspace (code ! next_pos)) \<Longrightarrow> skip_space code next_pos = next_pos"
  by (subst skip_space.simps) auto

lemma ident_loop_step:
  "i < len \<Longrightarrow> ident_loop src off len dep pre_sp i s =
     (case ident_step src off len dep pre_sp i s of
        None \<Rightarrow> None
      | Some s' \<Rightarrow> ident_loop src off len dep pre_sp (i + 1) s')"
  by (subst ident_loop.simps) simp

lemma ident_loop_stop: "\<not> i < len \<Longrightarrow> ident_loop src off len dep pre_sp i s = Some s"
  by (subst ident_loop.simps) simp

lemma blob_loop_step:
  "i < len \<Longrightarrow> blob_loop code start len dep i s =
     (case blob_step code start dep i s of
        None \<Rightarrow> None
      | Some s' \<Rightarrow> blob_loop code start len dep (i + 1) s')"
  by (subst blob_loop.simps) simp

lemma blob_loop_stop: "\<not> i < len \<Longrightarrow> blob_loop code start len dep i s = Some s"
  by (subst blob_loop.simps) simp

lemma probe_free_stop: "tab idx = 0 \<Longrightarrow> probe_free tab idx = Some idx"
  by (subst probe_free.simps) simp

lemma probe_free_step:
  "tab idx \<noteq> 0 \<Longrightarrow> probe_free tab idx = probe_free tab ((idx + 1) mod SEEN_TABLE_SIZE)"
  by (subst probe_free.simps) simp

lemma has_seen_loop_empty: "tab idx = 0 \<Longrightarrow> has_seen_loop tab tid idx = Some False"
  by (subst has_seen_loop.simps) simp

lemma has_seen_loop_hit: "tab idx \<noteq> 0 \<Longrightarrow> tab idx = tid \<Longrightarrow> has_seen_loop tab tid idx = Some True"
  by (subst has_seen_loop.simps) simp

lemma has_seen_loop_step:
  "tab idx \<noteq> 0 \<Longrightarrow> tab idx \<noteq> tid \<Longrightarrow>
   has_seen_loop tab tid idx = has_seen_loop tab tid ((idx + 1) mod SEEN_TABLE_SIZE)"
  by (subst has_seen_loop.simps) simp

text \<open>
  The test of \<open>calculate_surprise\<close> against the threshold 5.0 in whole numbers:
  \<open>-log2 p > 5\<close> is \<open>p < 1/32\<close>.
\<close>

lemma surprise_gt_5:
  "calculate_surprise m cur next > 5 \<longleftrightarrow>
     (5 \<le> unat (totals m cur) \<and>
      32 * (10 * unat (counts m cur next) + 1) < 10 * (unat (totals m cur) + 1))"
proof -
  define c where "c = unat (counts m cur next)"
  define t where "t = unat (totals m cur)"
  have cs: "calculate_surprise m cur next =
      (if t < 5 then 0 else - log 2 ((real c + 1 / 10) / (real t + 1)))"
    by (simp only: calculate_surprise_def Let_def c_def t_def)
  show ?thesis
  proof (cases "t < 5")
    case True
    then show ?thesis by (simp add: cs c_def [symmetric] t_def [symmetric])
  next
    case False
    have p: "0 < (real c + 1 / 10) / (real t + 1)"
      by (intro divide_pos_pos add_nonneg_pos) simp_all
    have "calculate_surprise m cur next > 5 \<longleftrightarrow> log 2 ((real c + 1 / 10) / (real t + 1)) < - 5"
      using False by (simp add: cs less_minus_iff)
    also have "\<dots> \<longleftrightarrow> (real c + 1 / 10) / (real t + 1) < 2 powr (- 5)"
      using p by (simp add: log_less_iff)
    also have "\<dots> \<longleftrightarrow> real (32 * (10 * c + 1)) < real (10 * (t + 1))"
      by (simp add: powr_minus field_simps)
    also have "\<dots> \<longleftrightarrow> 32 * (10 * c + 1) < 10 * (t + 1)"
      by (rule of_nat_less_iff)
    finally show ?thesis using False by (simp add: c_def t_def)
  qed
qed

lemma soft_split_iff:
  "soft_split m src off len start i \<longleftrightarrow>
     (islower (src ! (off + i)) \<and> isupper (src ! (off + i + 1))) \<or>
     (calculate_surprise m (src ! (off + i)) (src ! (off + i + 1)) > 5 \<and>
      (is_word_locked (text_at src (off + start) ((i + 1) - start)) \<or>
       ((i + 1) - start \<ge> 4 \<and> len - (i + 1) \<ge> 3)))"
  by (auto simp: soft_split_def Let_def)

lemmas ctype_defs = byte_def isspace_def isupper_def islower_def isdigit_def ispunct_def tolower_def

lemmas locked_eval = is_word_locked_def bsearch_def LOCKED_VOCAB_def vocab_cmp_def strcmp_def
  cstr_def bsearch_loop_done bsearch_loop_left bsearch_loop_right bsearch_loop_hit

lemmas registry_eval = register_token_def has_seen_id_def init_registry_def SEEN_TABLE_SIZE_def
  probe_free_stop probe_free_step has_seen_loop_empty has_seen_loop_hit has_seen_loop_step

lemmas push_eval = arena_push_def eat_symbol_def skip_space_step skip_space_stop zero_token_def
  text_at_def murmur_hash_def get_casing_def

lemmas ident_eval = process_identifier_def ident_loop_step ident_loop_stop ident_step_def
  ident_token_def set_joiner_def soft_split_iff surprise_gt_5

lemmas leaf_eval = process_leaf_def classify_def leaf_len_def already_eaten_def blob_split_def
  blob_loop_step blob_loop_stop blob_step_def

lemmas run_eval = ctype_defs locked_eval registry_eval push_eval ident_eval leaf_eval Let_def

section \<open>Termination of the probe loops\<close>

lemma SIZE_pos: "0 < SEEN_TABLE_SIZE" by (simp add: SEEN_TABLE_SIZE_def)

lemma probe_free_dist:
  "idx < SEEN_TABLE_SIZE \<Longrightarrow> tab ((idx + d) mod SEEN_TABLE_SIZE) = 0 \<Longrightarrow>
   \<exists>j. probe_free tab idx = Some j"
proof (induction d arbitrary: idx)
  case 0
  then show ?case by (simp add: probe_free_stop)
next
  case (Suc d)
  show ?case
  proof (cases "tab idx = 0")
    case True
    then show ?thesis by (simp add: probe_free_stop)
  next
    case False
    have "tab (((idx + 1) mod SEEN_TABLE_SIZE + d) mod SEEN_TABLE_SIZE) = 0"
      using Suc.prems(2) by (simp add: mod_add_left_eq)
    moreover have "(idx + 1) mod SEEN_TABLE_SIZE < SEEN_TABLE_SIZE"
      using SIZE_pos by simp
    ultimately have "\<exists>j. probe_free tab ((idx + 1) mod SEEN_TABLE_SIZE) = Some j"
      by (rule Suc.IH [rotated])
    then show ?thesis using False by (simp add: probe_free_step)
  qed
qed

lemma has_seen_loop_now:
  "tab idx = 0 \<or> tab idx = tid \<Longrightarrow> \<exists>r. has_seen_loop tab tid idx = Some r"
  by (subst has_seen_loop.simps) auto

lemma has_seen_loop_dist:
  "idx < SEEN_TABLE_SIZE \<Longrightarrow>
   tab ((idx + d) mod SEEN_TABLE_SIZE) = 0 \<or> tab ((idx + d) mod SEEN_TABLE_SIZE) = tid \<Longrightarrow>
   \<exists>r. has_seen_loop tab tid idx = Some r"
proof (induction d arbitrary: idx)
  case 0
  then show ?case by (simp add: has_seen_loop_now)
next
  case (Suc d)
  show ?case
  proof (cases "tab idx = 0 \<or> tab idx = tid")
    case True
    then show ?thesis by (rule has_seen_loop_now)
  next
    case False
    have "tab (((idx + 1) mod SEEN_TABLE_SIZE + d) mod SEEN_TABLE_SIZE) = 0 \<or>
          tab (((idx + 1) mod SEEN_TABLE_SIZE + d) mod SEEN_TABLE_SIZE) = tid"
      using Suc.prems(2) by (simp add: mod_add_left_eq)
    moreover have "(idx + 1) mod SEEN_TABLE_SIZE < SEEN_TABLE_SIZE"
      using SIZE_pos by simp
    ultimately have "\<exists>r. has_seen_loop tab tid ((idx + 1) mod SEEN_TABLE_SIZE) = Some r"
      by (rule Suc.IH [rotated])
    then show ?thesis using False by (simp add: has_seen_loop_step)
  qed
qed

lemma slot_dist: "idx < SEEN_TABLE_SIZE \<Longrightarrow> k < SEEN_TABLE_SIZE \<Longrightarrow>
  (idx + (k + SEEN_TABLE_SIZE - idx) mod SEEN_TABLE_SIZE) mod SEEN_TABLE_SIZE = k"
  by (simp add: mod_add_right_eq)

lemma probe_free_result:
  assumes "probe_free tab idx = Some j" and "idx < SEEN_TABLE_SIZE"
  shows "j < SEEN_TABLE_SIZE \<and> tab j = 0"
proof -
  have "idx < SEEN_TABLE_SIZE \<longrightarrow> j < SEEN_TABLE_SIZE \<and> tab j = 0"
  proof (rule probe_free.raw_induct
      [where P = "\<lambda>tab idx j. idx < SEEN_TABLE_SIZE \<longrightarrow> j < SEEN_TABLE_SIZE \<and> tab j = 0",
        OF _ assms(1)])
    fix pf :: "(nat \<Rightarrow> 32 word) \<Rightarrow> nat \<Rightarrow> nat option" and tab idx j
    assume IH: "\<And>tab idx y. pf tab idx = Some y \<Longrightarrow>
                  idx < SEEN_TABLE_SIZE \<longrightarrow> y < SEEN_TABLE_SIZE \<and> tab y = 0"
    assume eq: "(if tab idx \<noteq> 0 then pf tab ((idx + 1) mod SEEN_TABLE_SIZE) else Some idx) = Some j"
    show "idx < SEEN_TABLE_SIZE \<longrightarrow> j < SEEN_TABLE_SIZE \<and> tab j = 0"
    proof (cases "tab idx = 0")
      case True
      then show ?thesis using eq by auto
    next
      case False
      then have "pf tab ((idx + 1) mod SEEN_TABLE_SIZE) = Some j" using eq by simp
      from IH [OF this] show ?thesis using SIZE_pos by simp
    qed
  qed
  with assms(2) show ?thesis by simp
qed

lemma has_seen_loop_result:
  assumes "has_seen_loop tab tid idx = Some r" and "idx < SEEN_TABLE_SIZE"
  shows "\<exists>k<SEEN_TABLE_SIZE. tab k = 0 \<or> tab k = tid"
proof -
  have "idx < SEEN_TABLE_SIZE \<longrightarrow> (\<exists>k<SEEN_TABLE_SIZE. tab k = 0 \<or> tab k = tid)"
  proof (rule has_seen_loop.raw_induct
      [where P = "\<lambda>tab tid idx r. idx < SEEN_TABLE_SIZE \<longrightarrow> (\<exists>k<SEEN_TABLE_SIZE. tab k = 0 \<or> tab k = tid)",
        OF _ assms(1)])
    fix hs :: "(nat \<Rightarrow> 32 word) \<Rightarrow> 32 word \<Rightarrow> nat \<Rightarrow> bool option" and tab tid idx r
    assume IH: "\<And>tab tid idx y. hs tab tid idx = Some y \<Longrightarrow>
                  idx < SEEN_TABLE_SIZE \<longrightarrow> (\<exists>k<SEEN_TABLE_SIZE. tab k = 0 \<or> tab k = tid)"
    assume eq: "(if tab idx \<noteq> 0
                 then if tab idx = tid then Some True
                      else hs tab tid ((idx + 1) mod SEEN_TABLE_SIZE)
                 else Some False) = Some r"
    show "idx < SEEN_TABLE_SIZE \<longrightarrow> (\<exists>k<SEEN_TABLE_SIZE. tab k = 0 \<or> tab k = tid)"
    proof (cases "tab idx = 0 \<or> tab idx = tid")
      case True
      then show ?thesis by auto
    next
      case False
      then have "hs tab tid ((idx + 1) mod SEEN_TABLE_SIZE) = Some r" using eq by simp
      from IH [OF this] show ?thesis using SIZE_pos by simp
    qed
  qed
  with assms(2) show ?thesis by simp
qed

section \<open>The arena through the splitter loops\<close>

lemma all_from_snoc: "n \<le> length K \<Longrightarrow> all_from n P (K @ [x]) \<longleftrightarrow> all_from n P K \<and> P x"
  by (auto simp: all_from_def nth_append less_Suc_eq)

lemma adj_from_snoc:
  assumes n: "n \<le> length K"
  shows "adj_from n Q (K @ [x]) \<longleftrightarrow> adj_from n Q K \<and> (n < length K \<longrightarrow> Q (last K) x)"
proof
  assume A: "adj_from n Q (K @ [x])"
  show "adj_from n Q K \<and> (n < length K \<longrightarrow> Q (last K) x)"
  proof (intro conjI impI)
    show "adj_from n Q K"
      unfolding adj_from_def
    proof (intro allI impI)
      fix k assume k: "n \<le> k \<and> k + 1 < length K"
      then have "Q ((K @ [x]) ! k) ((K @ [x]) ! (k + 1))"
        using A by (simp add: adj_from_def)
      then show "Q (K ! k) (K ! (k + 1))" using k by (simp add: nth_append)
    qed
  next
    assume l: "n < length K"
    then have ne: "K \<noteq> []" by auto
    have "n \<le> length K - 1 \<and> (length K - 1) + 1 < length (K @ [x])"
      using l by (cases K) auto
    with A have "Q ((K @ [x]) ! (length K - 1)) ((K @ [x]) ! (length K - 1 + 1))"
      unfolding adj_from_def by blast
    then show "Q (last K) x"
      using l ne by (simp add: nth_append last_conv_nth)
  qed
next
  assume B: "adj_from n Q K \<and> (n < length K \<longrightarrow> Q (last K) x)"
  show "adj_from n Q (K @ [x])"
    unfolding adj_from_def
  proof (intro allI impI)
    fix k assume k: "n \<le> k \<and> k + 1 < length (K @ [x])"
    show "Q ((K @ [x]) ! k) ((K @ [x]) ! (k + 1))"
    proof (cases "k + 1 < length K")
      case True
      then have "Q (K ! k) (K ! (k + 1))" using B k by (simp add: adj_from_def)
      then show ?thesis using True by (simp add: nth_append)
    next
      case False
      then have e: "k = length K - 1" "K \<noteq> []" "n < length K" using k by auto
      then have "Q (last K) x" using B by simp
      then show ?thesis using e by (simp add: nth_append last_conv_nth)
    qed
  qed
qed

lemma tok_key_eat_symbol: "tok_key (eat_symbol t c) = tok_key t"
  by (simp add: tok_key_def eat_symbol_def)

lemma keys_set_joiner: "keys (st\<lparr>arena := set_joiner (arena st)\<rparr>) = keys st"
proof (cases "tokens (arena st) = []")
  case True
  then show ?thesis by (simp add: keys_def set_joiner_def)
next
  case False
  let ?ts = "tokens (arena st)"
  let ?i = "length ?ts - 1"
  have i: "?i < length ?ts" using False by simp
  have "map tok_key (?ts[?i := (?ts ! ?i)\<lparr>has_joiner := True\<rparr>]) =
        (map tok_key ?ts)[?i := tok_key (?ts ! ?i)]"
    by (simp add: map_update tok_key_def)
  also have "\<dots> = map tok_key ?ts"
    using i by (simp add: list_update_same_conv)
  finally show ?thesis using False by (simp add: keys_def set_joiner_def)
qed

lemma arena_push_keys:
  assumes "arena_push st t code = Some st'"
  shows "keys st' = (if capacity (arena st) \<le> length (keys st) then keys st else keys st @ [tok_key t])"
    and "capacity (arena st') = capacity (arena st)"
    and "global_model st' = global_model st"
  using assms
  by (auto simp: arena_push_def keys_def Let_def tok_key_eat_symbol split: if_splits option.splits)

lemma tok_key_ident_token:
  "tok_key (ident_token src off start n dep pre_sp e) = ((off + start) mod 2 ^ 32, n mod 2 ^ 16, False)"
  by (simp add: tok_key_def ident_token_def zero_token_def)

lemma capacity_set_joiner: "capacity (set_joiner a) = capacity a"
  by (simp add: set_joiner_def)

lemma no_break_snoc: "no_break n K \<Longrightarrow> no_break n (K @ [(b, l, False)])"
  by (simp add: no_break_def all_from_snoc)

lemma no_break_init: "no_break (length K) K"
  by (auto simp: no_break_def all_from_def)

lemma ident_step_cases:
  assumes step: "ident_step src off len dep pre_sp i (start, e, st) = Some (start', e', st')"
  shows "capacity (arena st') = capacity (arena st) \<and> global_model st' = global_model st \<and>
    ((src ! (off + i) = CHR ''_'' \<and> start' = i + 1 \<and>
        (keys st' = keys st \<or>
         (start < i \<and> keys st' = keys st @ [((off + start) mod 2 ^ 32, (i - start) mod 2 ^ 16, False)]))) \<or>
     (src ! (off + i) \<noteq> CHR ''_'' \<and> i + 1 < len \<and> soft_split (global_model st) src off len start i \<and>
        start' = i + 1 \<and>
        (keys st' = keys st \<or>
         keys st' = keys st @ [((off + start) mod 2 ^ 32, (i + 1 - start) mod 2 ^ 16, False)])) \<or>
     (src ! (off + i) \<noteq> CHR ''_'' \<and> \<not> (i + 1 < len \<and> soft_split (global_model st) src off len start i) \<and>
        start' = start \<and> keys st' = keys st))"
proof (cases "src ! (off + i) = CHR ''_''")
    case us: True
    show ?thesis
    proof (cases "start < i")
      case True
      let ?p = "arena_push st (ident_token src off start (i - start) dep pre_sp e) src"
      have eq: "ident_step src off len dep pre_sp i (start, e, st) =
          (case ?p of None \<Rightarrow> None
           | Some st1 \<Rightarrow> Some (i + 1, e + 1, st1\<lparr>arena := set_joiner (arena st1)\<rparr>))"
        using us True by (simp add: ident_step_def Let_def split: option.splits)
      from step have c: "(case ?p of None \<Rightarrow> None
           | Some st1 \<Rightarrow> Some (i + 1, e + 1, st1\<lparr>arena := set_joiner (arena st1)\<rparr>)) =
          Some (start', e', st')"
        by (simp only: eq)
      then obtain st1 where push: "?p = Some st1"
        by (cases ?p) (simp_all only: option.case option.distinct)
      from c have t: "(i + 1, e + 1, st1\<lparr>arena := set_joiner (arena st1)\<rparr>) = (start', e', st')"
        by (simp only: push option.case option.inject)
      from t have res: "start' = i + 1" "st' = st1\<lparr>arena := set_joiner (arena st1)\<rparr>"
        by (simp_all only: prod.inject)
      from arena_push_keys [OF push] res True us show ?thesis
        by (auto simp: keys_set_joiner capacity_set_joiner tok_key_ident_token)
    next
      case False
      have eq: "ident_step src off len dep pre_sp i (start, e, st) =
          Some (i + 1, e, if e > 0 then st\<lparr>arena := set_joiner (arena st)\<rparr> else st)"
        using us False by (simp add: ident_step_def Let_def)
      from step have res: "start' = i + 1"
        "st' = (if e > 0 then st\<lparr>arena := set_joiner (arena st)\<rparr> else st)"
        unfolding eq by auto
      then show ?thesis using us
        by (auto simp: keys_set_joiner capacity_set_joiner)
    qed
  next
    case nus: False
    show ?thesis
    proof (cases "i + 1 < len \<and> soft_split (global_model st) src off len start i")
      case True
      let ?p = "arena_push st (ident_token src off start (i + 1 - start) dep pre_sp e) src"
      have eq: "ident_step src off len dep pre_sp i (start, e, st) =
          map_option (\<lambda>st1. (i + 1, e + 1, st1)) ?p"
        using nus True by (simp add: ident_step_def Let_def)
      from step have "map_option (\<lambda>st1. (i + 1, e + 1, st1)) ?p = Some (start', e', st')"
        by (simp only: eq)
      then obtain st1 where push: "?p = Some st1" and t: "(i + 1, e + 1, st1) = (start', e', st')"
        by (auto simp only: map_option_eq_Some)
      from t have res: "start' = i + 1" "st' = st1"
        by (simp_all only: prod.inject)
      from arena_push_keys [OF push] res True nus show ?thesis
        by (auto simp: tok_key_ident_token)
    next
      case False
      have eq: "ident_step src off len dep pre_sp i (start, e, st) = Some (start, e, st)"
        using nus False by (simp add: ident_step_def Let_def)
      from step have "start' = start" "st' = st"
        unfolding eq by simp_all
      then show ?thesis using nus False by simp
    qed
qed

lemma split_ok_soft_split:
  assumes "soft_split m src off len start i" "start \<le> i" "i + 1 < len"
  shows "split_ok src off len (off + start, i + 1 - start, pb)"
proof -
  define l where "l = i + 1 - start"
  have e: "off + start + l - 1 = off + i" "off + len - (off + start + l) = len - (i + 1)"
    using assms(2,3) by (simp_all add: l_def)
  have "camel_at src (off + i) \<or> is_word_locked (text_at src (off + start) l) \<or>
        (4 \<le> l \<and> 3 \<le> len - (i + 1))"
    using assms(1) unfolding soft_split_iff camel_at_def l_def by auto
  then have "split_ok src off len (off + start, l, pb)"
    unfolding split_ok_def by (simp only: prod.case e)
  then show ?thesis by (simp only: l_def)
qed

lemma ident_inv_step:
  assumes inv: "ident_inv src off len n i start (keys st)"
    and step: "ident_step src off len dep pre_sp i (start, e, st) = Some (start', e', st')"
    and b: "i < len" "off + len < 2 ^ 32" "len < 2 ^ 16"
  shows "ident_inv src off len n (i + 1) start' (keys st')"
proof -
  let ?K = "keys st"
  have si: "start \<le> i" and nK: "n \<le> length ?K"
    and us: "\<forall>j. off + start \<le> j \<and> j < off + i \<longrightarrow> src ! j \<noteq> CHR ''_''"
    and cm: "\<forall>j. off + start \<le> j \<and> j < off + i \<and> j + 1 < off + len \<longrightarrow> \<not> camel_at src j"
    and fr: "all_from n (frag_ok src off len) ?K"
    and adj: "adj_from n (\<lambda>a b. fst b = key_end a \<longrightarrow> split_ok src off len a) ?K"
    and lst: "n < length ?K \<longrightarrow> key_end (last ?K) \<le> off + start \<and>
         (key_end (last ?K) = off + start \<longrightarrow> split_ok src off len (last ?K))"
    using inv by (simp_all add: ident_inv_def)
  have m: "(off + start) mod 2 ^ 32 = off + start" "(i - start) mod 2 ^ 16 = i - start"
    "(i + 1 - start) mod 2 ^ 16 = i + 1 - start"
    using si b by simp_all
  from ident_step_cases [OF step, unfolded m] consider
      (same_us) "src ! (off + i) = CHR ''_''" "start' = i + 1" "keys st' = ?K"
    | (push_us) "src ! (off + i) = CHR ''_''" "start' = i + 1" "start < i"
        "keys st' = ?K @ [(off + start, i - start, False)]"
    | (same_sp) "src ! (off + i) \<noteq> CHR ''_''" "start' = i + 1" "keys st' = ?K"
    | (push_sp) "src ! (off + i) \<noteq> CHR ''_''" "i + 1 < len"
        "soft_split (global_model st) src off len start i" "start' = i + 1"
        "keys st' = ?K @ [(off + start, i + 1 - start, False)]"
    | (none) "src ! (off + i) \<noteq> CHR ''_''"
        "\<not> (i + 1 < len \<and> soft_split (global_model st) src off len start i)"
        "start' = start" "keys st' = ?K"
    by blast
  then show ?thesis
  proof cases
    case same_us
    then show ?thesis
      using si nK fr adj lst by (auto simp: ident_inv_def)
  next
    case push_us
    have f: "frag_ok src off len (off + start, i - start, False)"
      using push_us(3) b(1) us cm by (auto simp: frag_ok_def)
    show ?thesis
      using push_us si nK fr adj lst f
      by (auto simp: ident_inv_def all_from_snoc adj_from_snoc key_end_def)
  next
    case same_sp
    then show ?thesis
      using si nK fr adj lst by (auto simp: ident_inv_def)
  next
    case push_sp
    have us': "\<forall>j. off + start \<le> j \<and> j < off + i + 1 \<longrightarrow> src ! j \<noteq> CHR ''_''"
      using us push_sp(1) by (auto simp: less_Suc_eq)
    have f: "frag_ok src off len (off + start, i + 1 - start, False)"
      using si push_sp(2) us' cm by (auto simp: frag_ok_def)
    have g: "split_ok src off len (off + start, i + 1 - start, False)"
      using push_sp(3) si push_sp(2) by (rule split_ok_soft_split)
    show ?thesis
      using push_sp si nK fr adj lst f g
      by (auto simp: ident_inv_def all_from_snoc adj_from_snoc key_end_def)
  next
    case none
    have us': "\<forall>j. off + start \<le> j \<and> j < off + (i + 1) \<longrightarrow> src ! j \<noteq> CHR ''_''"
      using us none(1) by (auto simp: less_Suc_eq)
    have "i + 1 < len \<longrightarrow> \<not> camel_at src (off + i)"
      using none(2) by (auto simp: soft_split_iff camel_at_def)
    then have cm': "\<forall>j. off + start \<le> j \<and> j < off + (i + 1) \<and> j + 1 < off + len \<longrightarrow> \<not> camel_at src j"
      using cm by (auto simp: less_Suc_eq)
    show ?thesis
      using none si nK fr adj lst us' cm' by (simp add: ident_inv_def)
  qed
qed

lemma ident_loop_rule:
  assumes run: "ident_loop src off len dep pre_sp i s = Some s'"
    and init: "P i s" and le: "i \<le> len"
    and step: "\<And>j s s1. j < len \<Longrightarrow> P j s \<Longrightarrow> ident_step src off len dep pre_sp j s = Some s1 \<Longrightarrow> P (j + 1) s1"
  shows "P len s'"
  using run init le
proof (induction "len - i" arbitrary: i s)
  case 0
  then have "i = len" by simp
  with "0.prems" show ?case by (simp add: ident_loop_stop)
next
  case (Suc d)
  then have il: "i < len" by simp
  from Suc.prems(1) il obtain s1 where
    st: "ident_step src off len dep pre_sp i s = Some s1"
    and rest: "ident_loop src off len dep pre_sp (i + 1) s1 = Some s'"
    by (auto simp: ident_loop_step split: option.splits)
  have p1: "P (i + 1) s1" using step [OF il Suc.prems(2) st] .
  have d: "d = len - (i + 1)" using Suc.hyps(2) by simp
  from Suc.hyps(1) [OF d rest p1] il show ?case by simp
qed

lemma ident_inv_init: "ident_inv src off len (length K) 0 0 K"
  by (auto simp: ident_inv_def all_from_def adj_from_def)

lemma ident_loop_inv:
  assumes run: "ident_loop src off len dep pre_sp 0 (0, 0, st) = Some (start', e', st')"
    and b: "off + len < 2 ^ 32" "len < 2 ^ 16"
  shows "ident_inv src off len (length (keys st)) len start' (keys st')"
proof -
  let ?P = "\<lambda>j s. case s of (start, e, st1) \<Rightarrow> ident_inv src off len (length (keys st)) j start (keys st1)"
  have "?P len (start', e', st')"
  proof (rule ident_loop_rule [where P = ?P, OF run])
    show "?P 0 (0, 0, st)" by (simp add: ident_inv_init)
    show "0 \<le> len" by simp
    fix j s s1
    assume j: "j < len" and p: "?P j s" and st: "ident_step src off len dep pre_sp j s = Some s1"
    obtain start e st0 where s: "s = (start, e, st0)" by (cases s) auto
    obtain start1 e1 st1 where s1: "s1 = (start1, e1, st1)" by (cases s1) auto
    from p have "ident_inv src off len (length (keys st)) j start (keys st0)" by (simp add: s)
    from ident_inv_step [OF this st [unfolded s s1] j b] show "?P (j + 1) s1" by (simp add: s1)
  qed
  then show ?thesis by simp
qed

lemma ident_loop_no_break:
  assumes run: "ident_loop src off len dep pre_sp 0 (0, 0, st) = Some (start', e', st')"
  shows "no_break (length (keys st)) (keys st')"
proof -
  let ?P = "\<lambda>(j::nat) s. case s of (start, e, st1) \<Rightarrow> no_break (length (keys st)) (keys st1)"
  have "?P len (start', e', st')"
  proof (rule ident_loop_rule [where P = ?P, OF run])
    show "?P 0 (0, 0, st)" by (simp add: no_break_init)
    show "0 \<le> len" by simp
    fix j s s1
    assume p: "?P j s" and st: "ident_step src off len dep pre_sp j s = Some s1"
    obtain start e st0 where s: "s = (start, e, st0)" by (cases s) auto
    obtain start1 e1 st1 where s1: "s1 = (start1, e1, st1)" by (cases s1) auto
    from p have nb: "no_break (length (keys st)) (keys st0)" by (simp add: s)
    from ident_step_cases [OF st [unfolded s s1]] nb no_break_snoc [OF nb]
    show "?P (j + 1) s1" by (auto simp: s1)
  qed
  then show ?thesis by simp
qed

text \<open>What the tokens of a non-locked identifier look like once the processor returns.\<close>

lemma process_identifier_keys:
  assumes run: "process_identifier st src off len dep pre_sp = Some st'"
    and nl: "\<not> is_word_locked (text_at src off len)"
    and b: "off + len < 2 ^ 32" "len < 2 ^ 16"
  shows "length (keys st) \<le> length (keys st') \<and>
         all_from (length (keys st)) (frag_ok src off len) (keys st') \<and>
         adj_from (length (keys st)) (\<lambda>a b. fst b = key_end a \<longrightarrow> split_ok src off len a) (keys st')"
proof -
  let ?st0 = "st\<lparr>global_model := model_train_sequence (global_model st) (text_at src off len)\<rparr>"
  let ?n = "length (keys st)"
  have k0: "keys ?st0 = keys st" by (simp add: keys_def)
  from run nl obtain start e st1 where
    loop: "ident_loop src off len dep pre_sp 0 (0, 0, ?st0) = Some (start, e, st1)"
    and fin: "(if start < len
               then arena_push st1 (ident_token src off start (len - start) dep pre_sp e) src
               else Some st1) = Some st'"
    by (auto simp: process_identifier_def split: option.splits)
  have inv: "ident_inv src off len ?n len start (keys st1)"
    using ident_loop_inv [OF loop b] by (simp add: k0)
  then have si: "start \<le> len" and nK: "?n \<le> length (keys st1)"
    and us: "\<forall>j. off + start \<le> j \<and> j < off + len \<longrightarrow> src ! j \<noteq> CHR ''_''"
    and cm: "\<forall>j. off + start \<le> j \<and> j < off + len \<and> j + 1 < off + len \<longrightarrow> \<not> camel_at src j"
    and fr: "all_from ?n (frag_ok src off len) (keys st1)"
    and adj: "adj_from ?n (\<lambda>a b. fst b = key_end a \<longrightarrow> split_ok src off len a) (keys st1)"
    and lst: "?n < length (keys st1) \<longrightarrow> key_end (last (keys st1)) \<le> off + start \<and>
         (key_end (last (keys st1)) = off + start \<longrightarrow> split_ok src off len (last (keys st1)))"
    by (simp_all add: ident_inv_def)
  show ?thesis
  proof (cases "start < len")
    case False
    with fin have "st' = st1" by simp
    then show ?thesis using nK fr adj by simp
  next
    case True
    with fin have push: "arena_push st1 (ident_token src off start (len - start) dep pre_sp e) src = Some st'"
      by simp
    have r: "(off + start) mod 2 ^ 32 = off + start" "(len - start) mod 2 ^ 16 = len - start"
      using b True by simp_all
    have f: "frag_ok src off len (off + start, len - start, False)"
      using True us cm by (auto simp: frag_ok_def)
    have "tok_key (ident_token src off start (len - start) dep pre_sp e) = (off + start, len - start, False)"
      by (simp only: tok_key_ident_token r)
    with arena_push_keys(1) [OF push] have
      "keys st' = keys st1 \<or> keys st' = keys st1 @ [(off + start, len - start, False)]"
      by (simp split: if_splits)
    then show ?thesis
      using nK fr adj lst f
      by (auto simp: all_from_snoc adj_from_snoc)
  qed
qed

lemma process_identifier_no_break:
  assumes run: "process_identifier st src off len dep pre_sp = Some st'"
  shows "no_break (length (keys st)) (keys st')"
proof (cases "is_word_locked (text_at src off len)")
  case True
  let ?t = "zero_token\<lparr>root_id := murmur_hash (text_at src off len),
              offset := off mod 2 ^ 32, length_tok := len mod 2 ^ 16,
              depth := dep mod 8, pre_space := pre_sp\<rparr>"
  from run True obtain st1 where push: "arena_push st ?t src = Some st1"
    and res: "st' = st1\<lparr>global_model := model_train_sequence (global_model st1) (text_at src off len)\<rparr>"
    by (auto simp: process_identifier_def)
  have "keys st' = keys st1" by (simp add: res keys_def)
  moreover have "tok_key ?t = (off mod 2 ^ 32, len mod 2 ^ 16, False)"
    by (simp add: tok_key_def zero_token_def)
  ultimately show ?thesis
    using arena_push_keys(1) [OF push] no_break_init [of "keys st"]
      no_break_snoc [OF no_break_init, of "keys st" "off mod 2 ^ 32" "len mod 2 ^ 16"]
    by (auto split: if_splits)
next
  case False
  let ?st0 = "st\<lparr>global_model := model_train_sequence (global_model st) (text_at src off len)\<rparr>"
  have k0: "keys ?st0 = keys st" by (simp add: keys_def)
  from run False obtain start e st1 where
    loop: "ident_loop src off len dep pre_sp 0 (0, 0, ?st0) = Some (start, e, st1)"
    and fin: "(if start < len
               then arena_push st1 (ident_token src off start (len - start) dep pre_sp e) src
               else Some st1) = Some st'"
    by (auto simp: process_identifier_def split: option.splits)
  have nb: "no_break (length (keys st)) (keys st1)"
    using ident_loop_no_break [OF loop] by (simp add: k0)
  show ?thesis
  proof (cases "start < len")
    case False
    with fin nb show ?thesis by simp
  next
    case True
    with fin have push: "arena_push st1 (ident_token src off start (len - start) dep pre_sp e) src = Some st'"
      by simp
    from arena_push_keys(1) [OF push] nb no_break_snoc [OF nb] show ?thesis
      by (auto simp: tok_key_ident_token split: if_splits)
  qed
qed

lemma blob_step_cases:
  assumes step: "blob_step code start dep i (sub_start, st) = Some (sub_start', st')"
  shows "(is_sep (code ! (start + i)) \<and> sub_start' = i + 1 \<and>
            (keys st' = keys st \<or>
             (sub_start < i \<and>
              keys st' = keys st @ [((start + sub_start) mod 2 ^ 32, (i - sub_start) mod 2 ^ 16, False)]))) \<or>
         (\<not> is_sep (code ! (start + i)) \<and> sub_start' = sub_start \<and> keys st' = keys st)"
proof (cases "is_sep (code ! (start + i))")
  case sep: True
  show ?thesis
  proof (cases "sub_start < i")
    case True
    let ?t = "zero_token\<lparr>root_id := murmur_hash (text_at code (start + sub_start) (i - sub_start)),
                offset := (start + sub_start) mod 2 ^ 32,
                length_tok := (i - sub_start) mod 2 ^ 16,
                depth := (dep mod 7) mod 8, type_tok := 1\<rparr>"
    let ?p = "arena_push st ?t code"
    have eq: "blob_step code start dep i (sub_start, st) = map_option (\<lambda>st1. (i + 1, st1)) ?p"
      using sep True by (simp add: blob_step_def Let_def is_sep_def)
    from step have "map_option (\<lambda>st1. (i + 1, st1)) ?p = Some (sub_start', st')"
      by (simp only: eq)
    then obtain st1 where push: "?p = Some st1" and t: "(i + 1, st1) = (sub_start', st')"
      by (auto simp only: map_option_eq_Some)
    from t have res: "sub_start' = i + 1" "st' = st1"
      by (simp_all only: prod.inject)
    have k: "tok_key ?t = ((start + sub_start) mod 2 ^ 32, (i - sub_start) mod 2 ^ 16, False)"
      by (simp add: tok_key_def zero_token_def)
    from arena_push_keys(1) [OF push] res sep True k show ?thesis
      by (auto split: if_splits)
  next
    case False
    have eq: "blob_step code start dep i (sub_start, st) = Some (i + 1, st)"
      using sep False by (simp add: blob_step_def Let_def is_sep_def)
    from step have "sub_start' = i + 1" "st' = st"
      unfolding eq by simp_all
    then show ?thesis using sep by simp
  qed
next
  case False
  have eq: "blob_step code start dep i (sub_start, st) = Some (sub_start, st)"
    using False by (simp add: blob_step_def Let_def is_sep_def)
  from step have "sub_start' = sub_start" "st' = st"
    unfolding eq by simp_all
  then show ?thesis using False by simp
qed

lemma blob_loop_rule:
  assumes run: "blob_loop code start len dep i s = Some s'"
    and init: "P i s" and le: "i \<le> len"
    and step: "\<And>j s s1. j < len \<Longrightarrow> P j s \<Longrightarrow> blob_step code start dep j s = Some s1 \<Longrightarrow> P (j + 1) s1"
  shows "P len s'"
  using run init le
proof (induction "len - i" arbitrary: i s)
  case 0
  then have "i = len" by simp
  with "0.prems" show ?case by (simp add: blob_loop_stop)
next
  case (Suc d)
  then have il: "i < len" by simp
  from Suc.prems(1) il obtain s1 where
    st: "blob_step code start dep i s = Some s1"
    and rest: "blob_loop code start len dep (i + 1) s1 = Some s'"
    by (auto simp: blob_loop_step split: option.splits)
  have p1: "P (i + 1) s1" using step [OF il Suc.prems(2) st] .
  have d: "d = len - (i + 1)" using Suc.hyps(2) by simp
  from Suc.hyps(1) [OF d rest p1] il show ?case by simp
qed

lemma blob_inv_step:
  assumes inv: "blob_inv code start len n i sub_start (keys st)"
    and step: "blob_step code start dep i (sub_start, st) = Some (sub_start', st')"
    and b: "i < len" "start + len < 2 ^ 32" "len < 2 ^ 16"
  shows "blob_inv code start len n (i + 1) sub_start' (keys st')"
proof -
  let ?K = "keys st"
  have si: "sub_start \<le> i" and nK: "n \<le> length ?K"
    and ns: "\<forall>j. start + sub_start \<le> j \<and> j < start + i \<longrightarrow> \<not> is_sep (code ! j)"
    and fr: "all_from n (blob_frag_ok code start len) ?K"
    using inv by (simp_all add: blob_inv_def)
  have m: "(start + sub_start) mod 2 ^ 32 = start + sub_start"
    "(i - sub_start) mod 2 ^ 16 = i - sub_start"
    using si b by simp_all
  from blob_step_cases [OF step, unfolded m] consider
      (same) "sub_start' = i + 1" "keys st' = ?K"
    | (push) "sub_start' = i + 1" "sub_start < i"
        "keys st' = ?K @ [(start + sub_start, i - sub_start, False)]"
    | (none) "\<not> is_sep (code ! (start + i))" "sub_start' = sub_start" "keys st' = ?K"
    by blast
  then show ?thesis
  proof cases
    case same
    then show ?thesis using nK fr by (auto simp: blob_inv_def)
  next
    case push
    have "blob_frag_ok code start len (start + sub_start, i - sub_start, False)"
      using push(2) ns b(1) by (auto simp: blob_frag_ok_def)
    then show ?thesis using push nK fr by (auto simp: blob_inv_def all_from_snoc)
  next
    case none
    have "\<forall>j. start + sub_start \<le> j \<and> j < start + (i + 1) \<longrightarrow> \<not> is_sep (code ! j)"
      using ns none(1) by (auto simp: less_Suc_eq)
    then show ?thesis using none si nK fr by (simp add: blob_inv_def)
  qed
qed

lemma blob_split_keys:
  assumes run: "blob_split st code start len dep = Some st'"
    and b: "start + len < 2 ^ 32" "len < 2 ^ 16"
  shows "length (keys st) \<le> length (keys st') \<and>
         all_from (length (keys st)) (blob_frag_ok code start len) (keys st')"
proof -
  let ?n = "length (keys st)"
  from run obtain sub_start st1 where
    loop: "blob_loop code start len dep 0 (0, st) = Some (sub_start, st1)"
    and fin: "(if sub_start < len
               then arena_push st1
                 (zero_token\<lparr>root_id := murmur_hash (text_at code (start + sub_start) (len - sub_start)),
                             offset := (start + sub_start) mod 2 ^ 32,
                             length_tok := (len - sub_start) mod 2 ^ 16,
                             type_tok := 1\<rparr>) code
               else Some st1) = Some st'"
    by (auto simp: blob_split_def split: option.splits)
  let ?P = "\<lambda>j s. case s of (sub_start, st1) \<Rightarrow> blob_inv code start len ?n j sub_start (keys st1)"
  have "?P len (sub_start, st1)"
  proof (rule blob_loop_rule [where P = ?P, OF loop])
    show "?P 0 (0, st)" by (auto simp: blob_inv_def all_from_def)
    show "0 \<le> len" by simp
    fix j s s1
    assume j: "j < len" and p: "?P j s" and st: "blob_step code start dep j s = Some s1"
    obtain ss st0 where s: "s = (ss, st0)" by (cases s) auto
    obtain ss1 st1 where s1: "s1 = (ss1, st1)" by (cases s1) auto
    from p have "blob_inv code start len ?n j ss (keys st0)" by (simp add: s)
    from blob_inv_step [OF this st [unfolded s s1] j b] show "?P (j + 1) s1" by (simp add: s1)
  qed
  then have si: "sub_start \<le> len" and nK: "?n \<le> length (keys st1)"
    and ns: "\<forall>j. start + sub_start \<le> j \<and> j < start + len \<longrightarrow> \<not> is_sep (code ! j)"
    and fr: "all_from ?n (blob_frag_ok code start len) (keys st1)"
    by (simp_all add: blob_inv_def)
  show ?thesis
  proof (cases "sub_start < len")
    case False
    with fin have "st' = st1" by simp
    then show ?thesis using nK fr by simp
  next
    case True
    let ?t = "zero_token\<lparr>root_id := murmur_hash (text_at code (start + sub_start) (len - sub_start)),
                offset := (start + sub_start) mod 2 ^ 32,
                length_tok := (len - sub_start) mod 2 ^ 16,
                type_tok := 1\<rparr>"
    from fin True have push: "arena_push st1 ?t code = Some st'" by simp
    have r: "(start + sub_start) mod 2 ^ 32 = start + sub_start"
      "(len - sub_start) mod 2 ^ 16 = len - sub_start"
      using b True by simp_all
    have "tok_key ?t = ((start + sub_start) mod 2 ^ 32, (len - sub_start) mod 2 ^ 16, False)"
      by (simp add: tok_key_def zero_token_def)
    then have k: "tok_key ?t = (start + sub_start, len - sub_start, False)"
      by (simp only: r)
    have f: "blob_frag_ok code start len (start + sub_start, len - sub_start, False)"
      using True ns by (auto simp: blob_frag_ok_def)
    from arena_push_keys(1) [OF push] k have
      "keys st' = keys st1 \<or> keys st' = keys st1 @ [(start + sub_start, len - sub_start, False)]"
      by (simp split: if_splits)
    then show ?thesis using nK fr f by (auto simp: all_from_snoc)
  qed
qed

lemma blob_split_no_break:
  assumes run: "blob_split st code start len dep = Some st'"
  shows "no_break (length (keys st)) (keys st')"
proof -
  let ?n = "length (keys st)"
  from run obtain sub_start st1 where
    loop: "blob_loop code start len dep 0 (0, st) = Some (sub_start, st1)"
    and fin: "(if sub_start < len
               then arena_push st1
                 (zero_token\<lparr>root_id := murmur_hash (text_at code (start + sub_start) (len - sub_start)),
                             offset := (start + sub_start) mod 2 ^ 32,
                             length_tok := (len - sub_start) mod 2 ^ 16,
                             type_tok := 1\<rparr>) code
               else Some st1) = Some st'"
    by (auto simp: blob_split_def split: option.splits)
  let ?P = "\<lambda>(j::nat) s. case s of (sub_start, st1) \<Rightarrow> no_break ?n (keys st1)"
  have "?P len (sub_start, st1)"
  proof (rule blob_loop_rule [where P = ?P, OF loop])
    show "?P 0 (0, st)" by (simp add: no_break_init)
    show "0 \<le> len" by simp
    fix j s s1
    assume p: "?P j s" and st: "blob_step code start dep j s = Some s1"
    obtain ss st0 where s: "s = (ss, st0)" by (cases s) auto
    obtain ss1 st1 where s1: "s1 = (ss1, st1)" by (cases s1) auto
    from p have nb: "no_break ?n (keys st0)" by (simp add: s)
    from blob_step_cases [OF st [unfolded s s1]] nb no_break_snoc [OF nb]
    show "?P (j + 1) s1" by (auto simp: s1)
  qed
  then have nb: "no_break ?n (keys st1)" by simp
  show ?thesis
  proof (cases "sub_start < len")
    case False
    with fin nb show ?thesis by simp
  next
    case True
    let ?t = "zero_token\<lparr>root_id := murmur_hash (text_at code (start + sub_start) (len - sub_start)),
                offset := (start + sub_start) mod 2 ^ 32,
                length_tok := (len - sub_start) mod 2 ^ 16,
                type_tok := 1\<rparr>"
    from fin True have push: "arena_push st1 ?t code = Some st'" by simp
    have k: "tok_key ?t = ((start + sub_start) mod 2 ^ 32, (len - sub_start) mod 2 ^ 16, False)"
      by (simp add: tok_key_def zero_token_def)
    from arena_push_keys(1) [OF push] k nb no_break_snoc [OF nb] show ?thesis
      by (auto split: if_splits)
  qed
qed

lemma in_emitted_key:
  assumes t: "t \<in> set (emitted st (Some st'))"
    and a: "all_from (length (keys st)) P (keys st')"
  shows "P (tok_key t)"
proof -
  let ?n = "length (tokens (arena st))"
  let ?ts = "tokens (arena st')"
  from t have "t \<in> set (drop ?n ?ts)" by (simp add: emitted_def)
  then obtain k where k: "k < length (drop ?n ?ts)" "drop ?n ?ts ! k = t"
    by (auto simp: in_set_conv_nth)
  then have i: "?n + k < length ?ts" and e: "?ts ! (?n + k) = t" by simp_all
  have "P (keys st' ! (?n + k))"
    using a i by (simp add: all_from_def keys_def)
  then show ?thesis using i e by (simp add: keys_def)
qed

lemma text_at_nth: "b + l \<le> length src \<Longrightarrow> j < l \<Longrightarrow> text_at src b l ! j = src ! (b + j)"
  by (simp add: text_at_def)

lemma length_text_at: "b + l \<le> length src \<Longrightarrow> length (text_at src b l) = l"
  by (simp add: text_at_def)

lemma in_text_at:
  assumes "c \<in> set (text_at src b l)" "b + l \<le> length src"
  shows "\<exists>j. b \<le> j \<and> j < b + l \<and> src ! j = c"
proof -
  from assms(1) obtain k where "k < length (text_at src b l)" "text_at src b l ! k = c"
    by (auto simp: in_set_conv_nth)
  then have "k < l" "src ! (b + k) = c"
    using assms(2) by (simp_all add: length_text_at text_at_nth)
  then show ?thesis by (intro exI [of _ "b + k"]) simp
qed

lemma has_camel_pair_nth:
  "has_camel_pair s \<Longrightarrow> \<exists>j. j + 1 < length s \<and> islower (s ! j) \<and> isupper (s ! (j + 1))"
proof (induction s rule: has_camel_pair.induct)
  case (1 a b rest)
  show ?case
  proof (cases "islower a \<and> isupper b")
    case True
    then show ?thesis by (intro exI [of _ 0]) simp
  next
    case False
    with "1.prems" have "has_camel_pair (b # rest)" by simp
    from "1.IH" [OF this] obtain j where
      "j + 1 < length (b # rest)" "islower ((b # rest) ! j)" "isupper ((b # rest) ! (j + 1))"
      by blast
    then show ?thesis by (intro exI [of _ "Suc j"]) simp
  qed
qed simp_all

lemma frag_ok_text:
  assumes f: "frag_ok src off len k" and r: "fst k + fst (snd k) \<le> length src"
  shows "CHR ''_'' \<notin> set (text_at src (fst k) (fst (snd k)))"
    and "\<not> has_camel_pair (text_at src (fst k) (fst (snd k)))"
proof -
  obtain b l pb where k: "k = (b, l, pb)" by (cases k) auto
  from f have us: "\<forall>j. b \<le> j \<and> j < b + l \<longrightarrow> src ! j \<noteq> CHR ''_''"
    and cm: "\<forall>j. b \<le> j \<and> j + 1 < b + l \<longrightarrow> \<not> camel_at src j"
    by (simp_all add: frag_ok_def k)
  from r have r': "b + l \<le> length src" by (simp add: k)
  show "CHR ''_'' \<notin> set (text_at src (fst k) (fst (snd k)))"
    using in_text_at [OF _ r', of "CHR ''_''"] us by (auto simp: k)
  show "\<not> has_camel_pair (text_at src (fst k) (fst (snd k)))"
  proof
    assume "has_camel_pair (text_at src (fst k) (fst (snd k)))"
    then have "has_camel_pair (text_at src b l)" by (simp add: k)
    from has_camel_pair_nth [OF this] obtain j where
      j: "j + 1 < l" "islower (text_at src b l ! j)" "isupper (text_at src b l ! (j + 1))"
      using r' by (auto simp: length_text_at)
    then have "camel_at src (b + j)"
      using r' by (simp add: camel_at_def text_at_nth)
    with cm j(1) show False by auto
  qed
qed

lemma blob_frag_ok_text:
  assumes f: "blob_frag_ok code start len k" and r: "start + len \<le> length code"
  shows "CHR ''_'' \<notin> set (text_at code (fst k) (fst (snd k)))"
proof -
  obtain b l pb where k: "k = (b, l, pb)" by (cases k) auto
  from f have ns: "\<forall>j. b \<le> j \<and> j < b + l \<longrightarrow> \<not> is_sep (code ! j)"
    by (simp add: blob_frag_ok_def k)
  have "is_sep (CHR ''_'')" by (simp add: is_sep_def ispunct_def byte_def)
  with ns have "\<forall>j. b \<le> j \<and> j < b + l \<longrightarrow> code ! j \<noteq> CHR ''_''" by metis
  moreover from f r have "b + l \<le> length code" by (simp add: blob_frag_ok_def k)
  ultimately show ?thesis
    using in_text_at [of "CHR ''_''" code b l] by (auto simp: k)
qed

lemma process_leaf_cases:
  "process_leaf st code dep ty start end =
     (case classify (tokens (arena st)) code ty start end of
        Empty \<Rightarrow> Some st
      | Eaten \<Rightarrow> Some st
      | Identifier \<Rightarrow>
          process_identifier st code start (leaf_len start end) (dep mod 7)
            (start > 0 \<and> isspace (code ! (start - 1)) \<and> code ! (start - 1) \<noteq> CHR 0x0A)
      | Blob \<Rightarrow> blob_split st code start (leaf_len start end) dep
      | Default \<Rightarrow>
          arena_push st
            (zero_token\<lparr>root_id := murmur_hash (text_at code start (leaf_len start end)),
                        offset := start mod 2 ^ 32, length_tok := leaf_len start end mod 2 ^ 16,
                        depth := (dep mod 7) mod 8,
                        pre_space := (start > 0 \<and> isspace (code ! (start - 1)) \<and> code ! (start - 1) \<noteq> CHR 0x0A),
                        pre_break := (start > 0 \<and> code ! (start - 1) = CHR 0x0A),
                        type_tok := (if isdigit (code ! start) then 2 else 0)\<rparr>) code)"
  by (cases "classify (tokens (arena st)) code ty start end") (simp_all add: process_leaf_def Let_def)

lemma emitted_same: "emitted st (Some st) = []"
  by (simp add: emitted_def)

lemma emitted_None: "emitted st None = []"
  by (simp add: emitted_def)

lemma leaf_len_bound: "leaf_len start end < 2 ^ 16"
  by (simp add: leaf_len_def)

lemma emitted_nth_key:
  assumes "k < length (emitted st (Some st'))"
  shows "length (keys st) + k < length (keys st')"
    and "tok_key (emitted st (Some st') ! k) = keys st' ! (length (keys st) + k)"
  using assms by (simp_all add: emitted_def keys_def)

section \<open>The small runs\<close>

lemmas demo_eval = run_eval fresh_state_def emitted_def tok_key_def zero_model_def z_model_def

lemma newline_demo_keys: "map tok_key newline_demo = [(1, 2, False), (4, 3, False)]"
  by (simp add: newline_demo_def demo_eval)

lemma comment_demo_keys: "map tok_key comment_demo = [(3, 2, False), (6, 2, False)]"
  by (simp add: comment_demo_def demo_eval)

lemma camel_demo_keys: "map tok_key camel_demo = [(0, 2, False), (2, 3, False)]"
  by (simp add: camel_demo_def demo_eval)

lemma entropy_demo_keys: "map tok_key entropy_demo = [(0, 4, False), (4, 4, False)]"
  by (simp add: entropy_demo_def demo_eval)

lemma keys_two:
  assumes "map tok_key E = [(b0, l0, p0), (b1, l1, p1)]"
  shows "length E = 2" "E ! 0 \<in> set E" "E ! 1 \<in> set E"
    "offset (E ! 0) = b0" "length_tok (E ! 0) = l0" "offset (E ! 1) = b1" "length_tok (E ! 1) = l1"
proof -
  from assms obtain x y where E: "E = [x, y]" by (auto simp: map_eq_Cons_conv)
  with assms show "length E = 2" "E ! 0 \<in> set E" "E ! 1 \<in> set E"
    "offset (E ! 0) = b0" "length_tok (E ! 0) = l0" "offset (E ! 1) = b1" "length_tok (E ! 1) = l1"
    by (simp_all add: tok_key_def)
qed

section \<open>The locked short-circuit\<close>

text \<open>
  C1: for every word of the locked vocabulary the identifier segmenter emits exactly one
  token over the whole span, with casing 0.

  The table is searched by bisection but is sorted only up to \<open>volatile\<close>, and the key
  is lowered while the entry \<open>NULL\<close> is not. The search finds the entries up to
  \<open>volatile\<close> and misses those behind it. So \<open>NULL\<close> and \<open>size_t\<close>
  are not locked: \<open>NULL\<close> goes through the splitter and gets casing 2, and \<open>size_t\<close>
  is cut at its underscore into \<open>size\<close> (offset 0, length 4, joiner set) and \<open>t\<close>
  (offset 5, length 1). Nor is \<open>buffer\<close>: the identifier \<open>Buffer\<close> gets casing 1.
  This holds for every bigram model \<open>m\<close>. No entry of the table is the lowered
  \<open>NULL\<close>, so no order of the search finds it.
\<close>

theorem locked_word_not_short_circuited:
  "map is_word_locked [''volatile'', ''while'', ''printf'', ''buffer'', ''size_t'', ''NULL'', ''null'', ''root'']
     = [True, False, False, False, False, False, False, False] \<and>
   map tolower ''NULL'' \<notin> set LOCKED_VOCAB \<and>
   map_option (\<lambda>s. map (\<lambda>t. (offset t, length_tok t, casing t)) (tokens (arena s)))
     (process_identifier
        \<lparr>arena = \<lparr>tokens = [], capacity = 4\<rparr>, global_model = m, reg = init_registry\<rparr>
        ''NULL'' 0 4 0 False) = Some [(0, 4, 2)] \<and>
   map_option (\<lambda>s. map (\<lambda>t. (offset t, length_tok t, has_joiner t)) (tokens (arena s)))
     (process_identifier
        \<lparr>arena = \<lparr>tokens = [], capacity = 6\<rparr>, global_model = m, reg = init_registry\<rparr>
        ''size_t'' 0 6 0 False) = Some [(0, 4, True), (5, 1, False)] \<and>
   map_option (\<lambda>s. map (\<lambda>t. (offset t, length_tok t, casing t)) (tokens (arena s)))
     (process_identifier
        \<lparr>arena = \<lparr>tokens = [], capacity = 6\<rparr>, global_model = m, reg = init_registry\<rparr>
        ''Buffer'' 0 6 0 False) = Some [(0, 6, 1)]"
proof (intro conjI)
  show "map is_word_locked [''volatile'', ''while'', ''printf'', ''buffer'', ''size_t'', ''NULL'', ''null'', ''root'']
     = [True, False, False, False, False, False, False, False]"
    by (simp add: locked_eval ctype_defs)
  show "map tolower ''NULL'' \<notin> set LOCKED_VOCAB"
    by code_simp
  show "map_option (\<lambda>s. map (\<lambda>t. (offset t, length_tok t, casing t)) (tokens (arena s)))
     (process_identifier
        \<lparr>arena = \<lparr>tokens = [], capacity = 4\<rparr>, global_model = m, reg = init_registry\<rparr>
        ''NULL'' 0 4 0 False) = Some [(0, 4, 2)]"
    by (simp add: run_eval)
  show "map_option (\<lambda>s. map (\<lambda>t. (offset t, length_tok t, has_joiner t)) (tokens (arena s)))
     (process_identifier
        \<lparr>arena = \<lparr>tokens = [], capacity = 6\<rparr>, global_model = m, reg = init_registry\<rparr>
        ''size_t'' 0 6 0 False) = Some [(0, 4, True), (5, 1, False)]"
    by (simp add: run_eval)
  show "map_option (\<lambda>s. map (\<lambda>t. (offset t, length_tok t, casing t)) (tokens (arena s)))
     (process_identifier
        \<lparr>arena = \<lparr>tokens = [], capacity = 6\<rparr>, global_model = m, reg = init_registry\<rparr>
        ''Buffer'' 0 6 0 False) = Some [(0, 6, 1)]"
    by (simp add: run_eval)
qed

section \<open>The depth field\<close>

text \<open>
  C3: the depth field of a token is the nesting depth of its leaf modulo 8.

  The driver stores \<open>depth % 7\<close>. A number literal seven levels below the root gets
  the depth field 0, where 7 modulo 8 is 7.
\<close>

theorem depth_field_wraps_at_seven:
  "map_option (\<lambda>s. map (\<lambda>t. (offset t, length_tok t, depth t)) (tokens (arena s)))
     (tokenize init_registry ''7''
        (Node ''translation_unit'' 0 1 [Node ''b'' 0 1 [Node ''c'' 0 1 [Node ''d'' 0 1
          [Node ''e'' 0 1 [Node ''f'' 0 1 [Node ''g'' 0 1 [Node ''number_literal'' 0 1 []]]]]]]]))
   = Some [(0, 1, 0)]"
  apply (simp add: tokenize_def process_leaf_cases)
  apply (simp add: run_eval)
  done

text \<open>
  C5: every fragment of a blob-class leaf is emitted with type 1 and the supplied depth.

  The fragment behind the last separator is pushed without a depth. For the comment
  \<open>// ab cd\<close> one level below the root, \<open>ab\<close> has depth 1 and \<open>cd\<close> has depth 0; the
  entries are (offset, length, type, depth).
\<close>

theorem blob_tail_fragment_depth_zero:
  "map_option (\<lambda>s. map (\<lambda>t. (offset t, length_tok t, type_tok t, depth t)) (tokens (arena s)))
     (tokenize init_registry ''// ab cd''
        (Node ''translation_unit'' 0 8 [Node ''comment'' 0 8 []]))
   = Some [(3, 2, 1, 1), (6, 2, 1, 0)]"
  apply (simp add: tokenize_def process_leaf_cases)
  apply (simp add: run_eval)
  done

section \<open>The registry\<close>

text \<open>
  C4: \<open>register_token\<close> does nothing for an id that is in the set, and otherwise inserts
  the id and appends one record; so no id is appended twice in a run.

  The id 0 is the mark of an empty slot, so it is never found and storing it changes
  nothing. The identifier \<open>ppkttia\<close> has the hash 0, and registering it twice on the
  fresh registry leaves the table empty and appends two records.
\<close>

theorem register_token_zero_id_twice:
  "murmur_hash ''ppkttia'' = 0 \<and>
   Option.bind (register_token init_registry 0 ''ppkttia'' 7)
     (\<lambda>r. register_token r 0 ''ppkttia'' 7)
   = Some (init_registry\<lparr>vocab_file := Some [(0, 7, ''ppkttia''), (0, 7, ''ppkttia'')]\<rparr>)"
  by (simp add: run_eval fun_upd_idem)

text \<open>
  C10: the probe loops of \<open>has_seen_id\<close> and of the insertion path of \<open>register_token\<close>
  end for every id when some slot of the table holds 0, and without such a slot they
  do not end.

  The second half fails for \<open>has_seen_id\<close>: on a table whose slots all hold 5 it
  returns true for the id 5 at its first probe.
\<close>

theorem full_table_has_seen_id_returns:
  "0 \<notin> range table_of_fives \<and> has_seen_id table_of_fives 5 = Some True"
  by (auto simp: table_of_fives_def has_seen_id_def has_seen_loop_hit)


text \<open>
  C10, amended: the insertion loop ends exactly when some slot holds 0. The loop of
  \<open>has_seen_id\<close> ends exactly when some slot holds 0 or holds the id, so on a table
  without an empty slot it still returns for an id that is stored and runs forever for
  every other id. Both loops start at \<open>id % SEEN_TABLE_SIZE\<close>.
\<close>

theorem probe_loops_terminate_iff:
  "(probe_free tab (unat tid mod SEEN_TABLE_SIZE) \<noteq> None \<longleftrightarrow> (\<exists>k<SEEN_TABLE_SIZE. tab k = 0)) \<and>
   (has_seen_id tab tid \<noteq> None \<longleftrightarrow> (\<exists>k<SEEN_TABLE_SIZE. tab k = 0 \<or> tab k = tid))"
proof -
  let ?h = "unat tid mod SEEN_TABLE_SIZE"
  have h: "?h < SEEN_TABLE_SIZE" using SIZE_pos by simp
  have a: "probe_free tab ?h \<noteq> None" if "k < SEEN_TABLE_SIZE" "tab k = 0" for k
    using probe_free_dist [OF h, of tab "(k + SEEN_TABLE_SIZE - ?h) mod SEEN_TABLE_SIZE"] that
    by (simp only: slot_dist [OF h that(1)]) auto
  have b: "has_seen_id tab tid \<noteq> None" if "k < SEEN_TABLE_SIZE" "tab k = 0 \<or> tab k = tid" for k
    using has_seen_loop_dist [OF h, of tab "(k + SEEN_TABLE_SIZE - ?h) mod SEEN_TABLE_SIZE" tid] that
    by (simp only: slot_dist [OF h that(1)] has_seen_id_def) auto
  show ?thesis
    using a b probe_free_result [OF _ h, of tab] has_seen_loop_result [OF _ h, of tab tid]
    by (auto simp: has_seen_id_def)
qed


theorem probe_loops_terminate_iff_witness:
  "probe_free (\<lambda>i. 0) (unat (7 :: 32 word) mod SEEN_TABLE_SIZE) \<noteq> None \<and>
   has_seen_id (\<lambda>i. 0) 7 \<noteq> None \<and>
   probe_free table_of_fives (unat (5 :: 32 word) mod SEEN_TABLE_SIZE) = None \<and>
   has_seen_id table_of_fives 7 = None"
  using probe_loops_terminate_iff [of "\<lambda>i. 0" 7] probe_loops_terminate_iff [of table_of_fives 5]
    probe_loops_terminate_iff [of table_of_fives 7] SIZE_pos
  by (auto simp: table_of_fives_def)

section \<open>The symbol eater\<close>

text \<open>
  C8: the skip of the driver looks at the first byte of the leaf and at the bits of
  the token appended last, and at nothing else. When that token has an absorption bit
  set and the leaf starts with the matching character, the leaf is dropped and the
  state stays as it is: whatever the type, the length and the depth of the leaf, and
  whether or not this occurrence of the character is the one that was absorbed.
\<close>

theorem symbol_eater_skips_leaf:
  "tokens (arena st) = toks @ [prev] \<Longrightarrow> 0 < leaf_len start end \<Longrightarrow>
   (code ! start = CHR '';'' \<and> has_semi prev) \<or> (code ! start = CHR '','' \<and> has_comma prev) \<or>
   (code ! start = CHR ''('' \<and> has_paren prev) \<or> (code ! start = CHR '')'' \<and> has_close prev) \<or>
   (code ! start = CHR ''*'' \<and> has_star prev) \<Longrightarrow>
   process_leaf st code dep ty start end = Some st"
  by (simp add: process_leaf_def classify_def already_eaten_def Let_def)

text \<open>
  Two runs of it. In \<open>f(a))\<close> the token \<open>a\<close> has absorbed the first \<open>)\<close>; the leaf of
  the second \<open>)\<close> at offset 4 is dropped as well. In \<open>a *= b\<close> the token \<open>a\<close> has the
  star bit, and the two-byte leaf \<open>*=\<close> is dropped.
\<close>

theorem symbol_eater_skips_leaf_witness:
  "0 < leaf_len 4 5 \<and> 0 < leaf_len 2 4 \<and>
   process_leaf
     \<lparr>arena = \<lparr>tokens = [] @ [zero_token\<lparr>offset := 2, length_tok := 1, has_close := True\<rparr>], capacity = 5\<rparr>,
      global_model = zero_model, reg = init_registry\<rparr>
     ''f(a))'' 2 '')'' 4 5
   = Some \<lparr>arena = \<lparr>tokens = [] @ [zero_token\<lparr>offset := 2, length_tok := 1, has_close := True\<rparr>], capacity = 5\<rparr>,
      global_model = zero_model, reg = init_registry\<rparr> \<and>
   process_leaf
     \<lparr>arena = \<lparr>tokens = [] @ [zero_token\<lparr>offset := 0, length_tok := 1, has_star := True\<rparr>], capacity = 6\<rparr>,
      global_model = zero_model, reg = init_registry\<rparr>
     ''a *= b'' 3 ''*='' 2 4
   = Some \<lparr>arena = \<lparr>tokens = [] @ [zero_token\<lparr>offset := 0, length_tok := 1, has_star := True\<rparr>], capacity = 6\<rparr>,
      global_model = zero_model, reg = init_registry\<rparr>"
  using symbol_eater_skips_leaf [of
      "\<lparr>arena = \<lparr>tokens = [] @ [zero_token\<lparr>offset := 2, length_tok := 1, has_close := True\<rparr>], capacity = 5\<rparr>,
        global_model = zero_model, reg = init_registry\<rparr>"
      "[]" "zero_token\<lparr>offset := 2, length_tok := 1, has_close := True\<rparr>" 4 5 "''f(a))''" 2 "'')''"]
    symbol_eater_skips_leaf [of
      "\<lparr>arena = \<lparr>tokens = [] @ [zero_token\<lparr>offset := 0, length_tok := 1, has_star := True\<rparr>], capacity = 6\<rparr>,
        global_model = zero_model, reg = init_registry\<rparr>"
      "[]" "zero_token\<lparr>offset := 0, length_tok := 1, has_star := True\<rparr>" 2 4 "''a *= b''" 3 "''*=''"]
  by (simp add: leaf_len_def zero_token_def)

section \<open>Boundaries inside the emitted tokens\<close>

text \<open>
  C9: every token of the identifier segmenter and every fragment of the blob splitter
  has \<open>pre_break = 0\<close>, also behind a newline; only a token of the default path can
  have \<open>pre_break = 1\<close>. For every leaf: a token that the leaf has added to the arena
  has no \<open>pre_break\<close> unless the leaf went the default path.
\<close>

theorem only_default_tokens_have_pre_break:
  assumes t: "t \<in> set (emitted st (process_leaf st code dep ty start end))"
    and c: "classify (tokens (arena st)) code ty start end \<noteq> Default"
  shows "\<not> pre_break t"
proof -
  let ?c = "classify (tokens (arena st)) code ty start end"
  from t obtain st' where run: "process_leaf st code dep ty start end = Some st'"
    by (cases "process_leaf st code dep ty start end") (simp_all add: emitted_None)
  have "no_break (length (keys st)) (keys st')"
  proof (cases ?c)
    case Eaten
    with run have "st' = st" by (simp add: process_leaf_cases)
    with t run show ?thesis by (simp add: emitted_same)
  next
    case Empty
    with run have "st' = st" by (simp add: process_leaf_cases)
    with t run show ?thesis by (simp add: emitted_same)
  next
    case Identifier
    with run show ?thesis by (simp add: process_leaf_cases process_identifier_no_break)
  next
    case Blob
    with run show ?thesis by (simp add: process_leaf_cases blob_split_no_break)
  next
    case Default
    with c show ?thesis by simp
  qed
  then have "all_from (length (keys st)) (\<lambda>k. \<not> snd (snd k)) (keys st')"
    by (simp add: no_break_def)
  from in_emitted_key [OF t [unfolded run] this] show ?thesis
    by (simp add: tok_key_def)
qed

text \<open>
  The identifier leaf \<open>my_var\<close> directly behind a newline: its first token has no
  \<open>pre_break\<close>.
\<close>

theorem only_default_tokens_have_pre_break_witness:
  "newline_demo ! 0 \<in> set newline_demo \<and>
   (CHR 0x0A # ''my_var'') ! (1 - 1) = CHR 0x0A \<and>
   classify (tokens (arena (fresh_state 7))) (CHR 0x0A # ''my_var'') ''identifier'' 1 7 \<noteq> Default \<and>
   \<not> pre_break (newline_demo ! 0)"
proof -
  note k = keys_two [OF newline_demo_keys]
  have c: "classify (tokens (arena (fresh_state 7))) (CHR 0x0A # ''my_var'') ''identifier'' 1 7 \<noteq> Default"
    by (simp add: classify_def leaf_len_def already_eaten_def fresh_state_def)
  from only_default_tokens_have_pre_break [OF k(2) [unfolded newline_demo_def] c]
  have "\<not> pre_break (newline_demo ! 0)" by (simp add: newline_demo_def)
  with k(2) c show ?thesis by simp
qed

text \<open>
  C2: the span of a token appended to the arena has no underscore.

  The default path emits its leaf whole: the \<open>primitive_type\<close> leaf \<open>size_t\<close> becomes
  one token whose span is \<open>size_t\<close>.
\<close>

theorem default_token_with_underscore:
  "map_option (\<lambda>s. map (\<lambda>t. (text_at ''size_t'' (offset t) (length_tok t),
                              CHR ''_'' \<in> set (text_at ''size_t'' (offset t) (length_tok t))))
                      (tokens (arena s)))
     (tokenize init_registry ''size_t''
        (Node ''translation_unit'' 0 6 [Node ''primitive_type'' 0 6 []]))
   = Some [(''size_t'', True)]"
  apply (simp add: tokenize_def process_leaf_cases)
  apply (simp add: run_eval)
  done

text \<open>
  C2, amended: the span of a token has no underscore when the token is a fragment of
  a blob-class leaf, or comes from the identifier segmenter for an identifier that is
  not a locked word. The leaf lies inside the buffer, and the buffer is shorter than
  \<open>2^32\<close> bytes as its \<open>uint32_t\<close> offsets need. The default path and the locked
  short-circuit are left out: they do not look for underscores.
\<close>

theorem segmenter_and_blob_tokens_without_underscore:
  assumes t: "t \<in> set (emitted st (process_leaf st code dep ty start end))"
    and c: "classify (tokens (arena st)) code ty start end = Blob \<or>
            (classify (tokens (arena st)) code ty start end = Identifier \<and>
             \<not> is_word_locked (text_at code start (leaf_len start end)))"
    and r: "start + leaf_len start end \<le> length code" "length code < 2 ^ 32"
  shows "CHR ''_'' \<notin> set (text_at code (offset t) (length_tok t))"
proof -
  let ?c = "classify (tokens (arena st)) code ty start end"
  let ?len = "leaf_len start end"
  from t obtain st' where run: "process_leaf st code dep ty start end = Some st'"
    by (cases "process_leaf st code dep ty start end") (simp_all add: emitted_None)
  have b: "start + ?len < 2 ^ 32" "?len < 2 ^ 16"
    using r leaf_len_bound [of start "end"] by simp_all
  from c show ?thesis
  proof
    assume bl: "?c = Blob"
    with run have "blob_split st code start ?len dep = Some st'"
      by (simp add: process_leaf_cases)
    from blob_split_keys [OF this b]
    have "all_from (length (keys st)) (blob_frag_ok code start ?len) (keys st')" by simp
    from in_emitted_key [OF t [unfolded run] this] have "blob_frag_ok code start ?len (tok_key t)" .
    from blob_frag_ok_text [OF this r(1)] show ?thesis by (simp add: tok_key_def)
  next
    assume "?c = Identifier \<and> \<not> is_word_locked (text_at code start ?len)"
    then have id: "?c = Identifier" and nl: "\<not> is_word_locked (text_at code start ?len)" by simp_all
    from run id obtain ps where "process_identifier st code start ?len (dep mod 7) ps = Some st'"
      by (simp add: process_leaf_cases)
    from process_identifier_keys [OF this nl b]
    have "all_from (length (keys st)) (frag_ok code start ?len) (keys st')" by simp
    from in_emitted_key [OF t [unfolded run] this] have f: "frag_ok code start ?len (tok_key t)" .
    then have "fst (tok_key t) + fst (snd (tok_key t)) \<le> length code"
      using r(1) by (auto simp: frag_ok_def split: prod.splits)
    from frag_ok_text(1) [OF f this] show ?thesis by (simp add: tok_key_def)
  qed
qed

text \<open>
  The token \<open>var\<close> of the identifier leaf \<open>my_var\<close> and the fragment \<open>ab\<close> of the
  comment \<open>// ab cd\<close>.
\<close>

theorem segmenter_and_blob_tokens_without_underscore_witness:
  "newline_demo ! 1 \<in> set newline_demo \<and> comment_demo ! 0 \<in> set comment_demo \<and>
   classify (tokens (arena (fresh_state 7))) (CHR 0x0A # ''my_var'') ''identifier'' 1 7 = Identifier \<and>
   \<not> is_word_locked (text_at (CHR 0x0A # ''my_var'') 1 (leaf_len 1 7)) \<and>
   classify (tokens (arena (fresh_state 8))) ''// ab cd'' ''comment'' 0 8 = Blob \<and>
   1 + leaf_len 1 7 \<le> length (CHR 0x0A # ''my_var'') \<and>
   0 + leaf_len 0 8 \<le> length ''// ab cd'' \<and>
   length (CHR 0x0A # ''my_var'') < 2 ^ 32 \<and> length ''// ab cd'' < 2 ^ 32 \<and>
   CHR ''_'' \<notin> set (text_at (CHR 0x0A # ''my_var'') (offset (newline_demo ! 1)) (length_tok (newline_demo ! 1))) \<and>
   CHR ''_'' \<notin> set (text_at ''// ab cd'' (offset (comment_demo ! 0)) (length_tok (comment_demo ! 0)))"
proof -
  note k = keys_two [OF newline_demo_keys] and j = keys_two [OF comment_demo_keys]
  have c: "classify (tokens (arena (fresh_state 7))) (CHR 0x0A # ''my_var'') ''identifier'' 1 7 = Identifier"
    by (simp add: classify_def leaf_len_def already_eaten_def fresh_state_def)
  have l: "\<not> is_word_locked (text_at (CHR 0x0A # ''my_var'') 1 (leaf_len 1 7))"
    by (simp add: leaf_len_def text_at_def locked_eval ctype_defs)
  have d: "classify (tokens (arena (fresh_state 8))) ''// ab cd'' ''comment'' 0 8 = Blob"
    by (simp add: classify_def leaf_len_def already_eaten_def fresh_state_def)
  have r: "1 + leaf_len 1 7 \<le> length (CHR 0x0A # ''my_var'')" "0 + leaf_len 0 8 \<le> length ''// ab cd''"
    "length (CHR 0x0A # ''my_var'') < 2 ^ 32" "length ''// ab cd'' < 2 ^ 32"
    by (simp_all add: leaf_len_def)
  have a: "CHR ''_'' \<notin> set (text_at (CHR 0x0A # ''my_var'') (offset (newline_demo ! 1)) (length_tok (newline_demo ! 1)))"
    using segmenter_and_blob_tokens_without_underscore
      [OF k(3) [unfolded newline_demo_def] _ r(1) r(3)] c l
    by (simp add: newline_demo_def)
  have b: "CHR ''_'' \<notin> set (text_at ''// ab cd'' (offset (comment_demo ! 0)) (length_tok (comment_demo ! 0)))"
    using segmenter_and_blob_tokens_without_underscore
      [OF j(2) [unfolded comment_demo_def] _ r(2) r(4)] d
    by (simp add: comment_demo_def)
  from k(3) j(2) c l d r a b show ?thesis by blast
qed

text \<open>
  C6: the span of an emitted token has no lower-case ASCII letter directly in front of
  an upper-case one.

  The blob splitter cuts at white space and punctuation only, so the comment
  \<open>// myVar\<close> gives the fragment \<open>myVar\<close>; and the locked short-circuit emits the
  identifier \<open>iNt\<close> whole.
\<close>

theorem blob_and_locked_tokens_with_camel_pair:
  "map_option (\<lambda>s. map (\<lambda>t. (text_at ''// myVar'' (offset t) (length_tok t),
                              has_camel_pair (text_at ''// myVar'' (offset t) (length_tok t))))
                      (tokens (arena s)))
     (tokenize init_registry ''// myVar''
        (Node ''translation_unit'' 0 8 [Node ''comment'' 0 8 []]))
   = Some [(''myVar'', True)] \<and>
   map_option (\<lambda>s. map (\<lambda>t. (text_at ''iNt'' (offset t) (length_tok t),
                              has_camel_pair (text_at ''iNt'' (offset t) (length_tok t))))
                      (tokens (arena s)))
     (process_identifier (fresh_state 3) ''iNt'' 0 3 0 False)
   = Some [(''iNt'', True)]"
  apply (simp add: tokenize_def process_leaf_cases)
  apply (simp add: run_eval fresh_state_def)
  done

text \<open>
  C6, amended: the span of a token that the identifier segmenter emits for an
  identifier that is not a locked word has no lower-case ASCII letter directly in front
  of an upper-case one. The blob splitter, the default path and the locked
  short-circuit are left out: they do not look for camel case.
\<close>

theorem segmenter_tokens_without_camel_pair:
  assumes t: "t \<in> set (emitted st (process_leaf st code dep ty start end))"
    and c: "classify (tokens (arena st)) code ty start end = Identifier"
    and nl: "\<not> is_word_locked (text_at code start (leaf_len start end))"
    and r: "start + leaf_len start end \<le> length code" "length code < 2 ^ 32"
  shows "\<not> has_camel_pair (text_at code (offset t) (length_tok t))"
proof -
  let ?len = "leaf_len start end"
  from t obtain st' where run: "process_leaf st code dep ty start end = Some st'"
    by (cases "process_leaf st code dep ty start end") (simp_all add: emitted_None)
  have b: "start + ?len < 2 ^ 32" "?len < 2 ^ 16"
    using r leaf_len_bound [of start "end"] by simp_all
  from run c obtain ps where "process_identifier st code start ?len (dep mod 7) ps = Some st'"
    by (simp add: process_leaf_cases)
  from process_identifier_keys [OF this nl b]
  have "all_from (length (keys st)) (frag_ok code start ?len) (keys st')" by simp
  from in_emitted_key [OF t [unfolded run] this] have f: "frag_ok code start ?len (tok_key t)" .
  then have "fst (tok_key t) + fst (snd (tok_key t)) \<le> length code"
    using r(1) by (auto simp: frag_ok_def split: prod.splits)
  from frag_ok_text(2) [OF f this] show ?thesis by (simp add: tok_key_def)
qed

text \<open>The token \<open>my\<close> of the identifier leaf \<open>myVar\<close>, which is cut between \<open>y\<close> and \<open>V\<close>.\<close>

theorem segmenter_tokens_without_camel_pair_witness:
  "camel_demo ! 0 \<in> set camel_demo \<and>
   classify (tokens (arena (fresh_state 5))) ''myVar'' ''identifier'' 0 5 = Identifier \<and>
   \<not> is_word_locked (text_at ''myVar'' 0 (leaf_len 0 5)) \<and>
   0 + leaf_len 0 5 \<le> length ''myVar'' \<and> length ''myVar'' < 2 ^ 32 \<and>
   islower (''myVar'' ! 1) \<and> isupper (''myVar'' ! 2) \<and>
   \<not> has_camel_pair (text_at ''myVar'' (offset (camel_demo ! 0)) (length_tok (camel_demo ! 0)))"
proof -
  note k = keys_two [OF camel_demo_keys]
  have c: "classify (tokens (arena (fresh_state 5))) ''myVar'' ''identifier'' 0 5 = Identifier"
    by (simp add: classify_def leaf_len_def already_eaten_def fresh_state_def)
  have l: "\<not> is_word_locked (text_at ''myVar'' 0 (leaf_len 0 5))"
    by (simp add: leaf_len_def text_at_def locked_eval ctype_defs)
  have r: "0 + leaf_len 0 5 \<le> length ''myVar''" "length ''myVar'' < 2 ^ 32"
    by (simp_all add: leaf_len_def)
  have p: "islower (''myVar'' ! 1)" "isupper (''myVar'' ! 2)"
    by (simp_all add: ctype_defs)
  have "\<not> has_camel_pair (text_at ''myVar'' (offset (camel_demo ! 0)) (length_tok (camel_demo ! 0)))"
    using segmenter_tokens_without_camel_pair [OF k(2) [unfolded camel_demo_def] c l r]
    by (simp add: camel_demo_def)
  with k(2) c l r p show ?thesis by blast
qed

section \<open>The entropy guard\<close>

text \<open>
  C7: a split of the identifier segmenter that the entropy signal has driven, not an
  underscore and not camel case, has a locked word as its left fragment, or a left
  fragment of at least 4 bytes and at least 3 bytes behind it.

  On the tokens \<open>E\<close> that the segmenter has added: when a token starts where the one
  before it ends (no underscore was dropped between them) and the two bytes at the cut
  are not a camel-case pair, the token before the cut is a locked word, or it has at
  least 4 bytes and the identifier has at least 3 bytes from the cut on.
\<close>

theorem entropy_split_guard:
  assumes E: "E = emitted st (process_identifier st src off len dep pre_sp)"
    and k: "k + 1 < length E"
    and b: "off + len < 2 ^ 32" "len < 2 ^ 16"
    and adjacent: "offset (E ! (k + 1)) = offset (E ! k) + length_tok (E ! k)"
    and no_camel: "\<not> (islower (src ! (offset (E ! (k + 1)) - 1)) \<and> isupper (src ! offset (E ! (k + 1))))"
  shows "is_word_locked (text_at src (offset (E ! k)) (length_tok (E ! k))) \<or>
         (4 \<le> length_tok (E ! k) \<and> 3 \<le> off + len - offset (E ! (k + 1)))"
proof -
  from k E obtain st' where run: "process_identifier st src off len dep pre_sp = Some st'"
    by (cases "process_identifier st src off len dep pre_sp") (simp_all add: emitted_None)
  let ?n = "length (keys st)"
  let ?K = "keys st'"
  have E': "E = emitted st (Some st')" using E run by simp
  have k0: "k < length (emitted st (Some st'))" and k1: "k + 1 < length (emitted st (Some st'))"
    using k E' by simp_all
  note a = emitted_nth_key [OF k0] and c = emitted_nth_key [OF k1]
  have nl: "\<not> is_word_locked (text_at src off len)"
  proof
    assume l: "is_word_locked (text_at src off len)"
    let ?t = "zero_token\<lparr>root_id := murmur_hash (text_at src off len),
              offset := off mod 2 ^ 32, length_tok := len mod 2 ^ 16,
              depth := dep mod 8, pre_space := pre_sp\<rparr>"
    from run l obtain st1 where push: "arena_push st ?t src = Some st1"
      and res: "st' = st1\<lparr>global_model := model_train_sequence (global_model st1) (text_at src off len)\<rparr>"
      by (auto simp: process_identifier_def)
    have "keys st' = keys st1" by (simp add: res keys_def)
    with arena_push_keys(1) [OF push] have "length ?K \<le> ?n + 1"
      by (simp split: if_splits)
    with c(1) show False by simp
  qed
  from process_identifier_keys [OF run nl b]
  have fr: "all_from ?n (frag_ok src off len) ?K"
    and adj: "adj_from ?n (\<lambda>a b. fst b = key_end a \<longrightarrow> split_ok src off len a) ?K"
    by simp_all
  define x where "x = ?K ! (?n + k)"
  define y where "y = ?K ! (?n + k + 1)"
  have x: "tok_key (E ! k) = x" and y: "tok_key (E ! (k + 1)) = y"
    using a(2) c(2) by (simp_all add: x_def y_def E' add.assoc)
  have fx: "frag_ok src off len x"
    using fr a(1) by (simp add: all_from_def x_def)
  have q: "fst y = key_end x \<longrightarrow> split_ok src off len x"
    using adj c(1) by (simp add: adj_from_def x_def y_def add.assoc)
  obtain bx lx px where xe: "x = (bx, lx, px)" by (cases x) auto
  from x xe have ox: "offset (E ! k) = bx" "length_tok (E ! k) = lx"
    by (simp_all add: tok_key_def)
  from y have oy: "offset (E ! (k + 1)) = fst y" by (auto simp: tok_key_def)
  from fx xe have lpos: "0 < lx" by (simp add: frag_ok_def)
  from adjacent ox oy have e: "fst y = bx + lx" by simp
  with q xe have "split_ok src off len (bx, lx, px)" by (simp add: key_end_def)
  moreover have "\<not> camel_at src (bx + lx - 1)"
  proof -
    have "offset (E ! (k + 1)) = bx + lx" using oy e by simp
    with no_camel have "\<not> (islower (src ! (bx + lx - 1)) \<and> isupper (src ! (bx + lx)))"
      by simp
    moreover have "bx + lx - 1 + 1 = bx + lx" using lpos by simp
    ultimately show ?thesis unfolding camel_at_def by metis
  qed
  moreover have "offset (E ! (k + 1)) = bx + lx" using oy e by simp
  ultimately show ?thesis
    using ox by (auto simp: split_ok_def)
qed

text \<open>
  Under \<open>z_model\<close> the identifier \<open>abcdefgh\<close> is cut by the entropy signal into
  \<open>abcd\<close> and \<open>efgh\<close>: the left fragment has 4 bytes and 4 bytes are left.
\<close>

theorem entropy_split_guard_witness:
  "0 + 1 < length entropy_demo \<and> 0 + 8 < (2::nat) ^ 32 \<and> (8::nat) < 2 ^ 16 \<and>
   offset (entropy_demo ! (0 + 1)) = offset (entropy_demo ! 0) + length_tok (entropy_demo ! 0) \<and>
   \<not> (islower (''abcdefgh'' ! (offset (entropy_demo ! (0 + 1)) - 1)) \<and>
      isupper (''abcdefgh'' ! offset (entropy_demo ! (0 + 1)))) \<and>
   \<not> is_word_locked (text_at ''abcdefgh'' (offset (entropy_demo ! 0)) (length_tok (entropy_demo ! 0))) \<and>
   4 \<le> length_tok (entropy_demo ! 0) \<and> 3 \<le> 0 + 8 - offset (entropy_demo ! (0 + 1))"
proof -
  note k = keys_two [OF entropy_demo_keys]
  have h1: "0 + 1 < length entropy_demo" using k(1) by simp
  have h2: "0 + 8 < (2::nat) ^ 32" "(8::nat) < 2 ^ 16" by simp_all
  have h3: "offset (entropy_demo ! (0 + 1)) = offset (entropy_demo ! 0) + length_tok (entropy_demo ! 0)"
    using k by simp
  have h4: "\<not> (islower (''abcdefgh'' ! (offset (entropy_demo ! (0 + 1)) - 1)) \<and>
      isupper (''abcdefgh'' ! offset (entropy_demo ! (0 + 1))))"
    using k by (simp add: ctype_defs)
  have nl: "\<not> is_word_locked (text_at ''abcdefgh'' (offset (entropy_demo ! 0)) (length_tok (entropy_demo ! 0)))"
    using k by (simp add: text_at_def locked_eval ctype_defs)
  from entropy_split_guard [OF entropy_demo_def h1 h2 h3 h4] nl
  have "4 \<le> length_tok (entropy_demo ! 0) \<and> 3 \<le> 0 + 8 - offset (entropy_demo ! (0 + 1))"
    by blast
  with h1 h2 h3 h4 nl show ?thesis by blast
qed

end
